theory Spec2Isabelle
  imports Main
begin

section \<open>Shortest paths of rschio/graph (path.go)\<close>

text \<open>
  The development embeds \<^verbatim>\<open>path.go\<close>: the relaxation callback \<^verbatim>\<open>pathFinder.Do\<close>, the
  two search loops (\<^verbatim>\<open>ShortestPaths\<close> and \<^verbatim>\<open>shortestPathWithQueue\<close>) and the path
  reconstruction of \<^verbatim>\<open>ShortestPathWithQueue\<close>.

  Conventions.
  \<^item> Go's \<^verbatim>\<open>int64\<close> distances and edge costs are \<open>int\<close>; the one arithmetic operation of
    the source, \<^verbatim>\<open>p.dist[p.v] + d\<close>, wraps around as Go's does (\<open>int64\<close> below).
  \<^item> A vertex handed to an index expression is a \<open>nat\<close>; an index that is not below the
    length of the slice is a panic (\<open>Inl IndexOutOfRange\<close>). The entries of \<^verbatim>\<open>parent\<close>
    and of the returned path are \<open>int\<close>, since they hold the sentinel \<open>-1\<close>.
  \<^item> A result is \<open>None\<close> when the loop does not return, \<open>Some (Inl e)\<close> when the code
    panics, and \<open>Some (Inr r)\<close> when it returns \<open>r\<close>.
\<close>

subsection \<open>Machine integers and errors\<close>

datatype error = IndexOutOfRange | EmptyQueue

definition int64 :: "int \<Rightarrow> int" where
  "int64 x = (x + 2 ^ 63) mod 2 ^ 64 - 2 ^ 63"

subsection \<open>The traversal source\<close>

text \<open>
  The interface \<^verbatim>\<open>Iterator\<close> is declared outside \<^verbatim>\<open>path.go\<close>; the search uses it through
  \<^verbatim>\<open>g.Order()\<close> and \<^verbatim>\<open>g.Visit(v, do)\<close> only. It is taken as a parameter: \<open>Order g\<close> is
  the number of vertices and \<open>edges g u\<close> lists the pairs \<open>(w, c)\<close> for which
  \<^verbatim>\<open>g.Visit(u, do)\<close> calls \<^verbatim>\<open>do(w, c)\<close>, in the order of the calls.
\<close>

record Iterator =
  Order :: nat
  edges :: "nat \<Rightarrow> (nat \<times> int) list"

subsection \<open>The state of a search\<close>

text \<open>
  \<^verbatim>\<open>type pathFinder struct { dist []int64; parent []int; q DistQueue; v int }\<close>.
  The slice \<^verbatim>\<open>dist\<close> is shared by the search, the path finder and the queue
  (\<^verbatim>\<open>q.SetDist(dist)\<close>); the record holds the one copy, and the queue operations act on
  the record. The field \<open>queue\<close> is the content of \<^verbatim>\<open>q\<close>, the field \<open>vtx\<close> is \<^verbatim>\<open>v\<close>.
\<close>

record pathFinder =
  dist :: "int list"
  parent :: "int list"
  queue :: "nat list"
  vtx :: nat

subsection \<open>The cost queue\<close>

text \<open>
  Modelled from the spec: the type \<^verbatim>\<open>dijkstraQueue\<close>, the queue that \<^verbatim>\<open>ShortestPath\<close>
  and \<^verbatim>\<open>ShortestPaths\<close> create, is not in \<^verbatim>\<open>path.go\<close>. The model follows the contract
  of the interface \<^verbatim>\<open>DistQueue\<close> (its comments in \<^verbatim>\<open>path.go\<close>, and section 4.1 of the
  specification): the queue holds vertices, its priorities are the entries of the shared
  slice \<^verbatim>\<open>dist\<close>, \<^verbatim>\<open>Push(v, cost)\<close> inserts \<open>v\<close> with priority \<open>cost\<close>, \<^verbatim>\<open>Fix(v, cost)\<close>
  changes the priority of \<open>v\<close> to \<open>cost\<close>, \<^verbatim>\<open>Pop()\<close> removes and returns a vertex of
  smallest priority, and \<^verbatim>\<open>Len()\<close> is the number of vertices held. Ties are left open by
  the contract; the model takes the vertex of smallest priority that was inserted first.
\<close>

definition SetDist :: "int list \<Rightarrow> pathFinder \<Rightarrow> pathFinder" where
  "SetDist ds p = p\<lparr>dist := ds\<rparr>"

definition Push :: "nat \<Rightarrow> int \<Rightarrow> pathFinder \<Rightarrow> error + pathFinder" where
  "Push w cost p =
     (if w < length (dist p)
      then Inr (p\<lparr>dist := (dist p)[w := cost], queue := queue p @ [w]\<rparr>)
      else Inl IndexOutOfRange)"

definition Fix :: "nat \<Rightarrow> int \<Rightarrow> pathFinder \<Rightarrow> error + pathFinder" where
  "Fix w cost p =
     (if w < length (dist p)
      then Inr (p\<lparr>dist := (dist p)[w := cost]\<rparr>)
      else Inl IndexOutOfRange)"

fun min_vertex :: "int list \<Rightarrow> nat \<Rightarrow> nat list \<Rightarrow> nat" where
  "min_vertex ds m [] = m"
| "min_vertex ds m (x # xs) = min_vertex ds (if ds ! x < ds ! m then x else m) xs"

definition Pop :: "pathFinder \<Rightarrow> error + nat \<times> pathFinder" where
  "Pop p =
     (case queue p of
        [] \<Rightarrow> Inl EmptyQueue
      | x # xs \<Rightarrow>
          if list_all (\<lambda>y. y < length (dist p)) (x # xs)
          then let u = min_vertex (dist p) x xs
               in Inr (u, p\<lparr>queue := remove1 u (x # xs)\<rparr>)
          else Inl IndexOutOfRange)"

definition Len :: "pathFinder \<Rightarrow> nat" where
  "Len p = length (queue p)"

subsection \<open>Relaxation: \<^verbatim>\<open>pathFinder.Do\<close>\<close>

text \<open>
  \<^verbatim>\<open>func (p *pathFinder) Do(w int, d int64) (skip bool)\<close>. The result \<^verbatim>\<open>skip\<close> is never
  assigned, so every return yields \<open>False\<close>. The source evaluates \<^verbatim>\<open>p.dist[p.v]\<close> first,
  then \<^verbatim>\<open>p.dist[w]\<close>, then writes \<^verbatim>\<open>p.parent[w]\<close> and calls the queue.
\<close>

definition Do :: "pathFinder \<Rightarrow> nat \<Rightarrow> int \<Rightarrow> error + bool \<times> pathFinder" where
  "Do p w d =
     (if d < 0 then Inr (False, p)
      else if \<not> vtx p < length (dist p) then Inl IndexOutOfRange
      else
        let alt = int64 (dist p ! vtx p + d) in
        if \<not> w < length (dist p) then Inl IndexOutOfRange
        else if dist p ! w = -1 then
          (if \<not> w < length (parent p) then Inl IndexOutOfRange
           else case Push w alt (p\<lparr>parent := (parent p)[w := int (vtx p)]\<rparr>) of
                  Inl e \<Rightarrow> Inl e
                | Inr p' \<Rightarrow> Inr (False, p'))
        else if alt < dist p ! w then
          (if \<not> w < length (parent p) then Inl IndexOutOfRange
           else case Fix w alt (p\<lparr>parent := (parent p)[w := int (vtx p)]\<rparr>) of
                  Inl e \<Rightarrow> Inl e
                | Inr p' \<Rightarrow> Inr (False, p'))
        else Inr (False, p))"

text \<open>
  \<^verbatim>\<open>g.Visit(v, do)\<close> with \<^verbatim>\<open>do = p.Do\<close>: the callback runs on the edges of \<open>u\<close> in order and
  the visit stops early when a call returns \<^verbatim>\<open>skip = true\<close>.
\<close>

fun visit :: "(nat \<times> int) list \<Rightarrow> pathFinder \<Rightarrow> error + pathFinder" where
  "visit [] p = Inr p"
| "visit ((w, d) # es) p =
     (case Do p w d of
        Inl e \<Rightarrow> Inl e
      | Inr (skip, p') \<Rightarrow> if skip then Inr p' else visit es p')"

definition Visit :: "Iterator \<Rightarrow> nat \<Rightarrow> pathFinder \<Rightarrow> error + pathFinder" where
  "Visit g u p = visit (edges g u) p"

subsection \<open>The searches\<close>

text \<open>
  The common prologue of \<^verbatim>\<open>ShortestPaths\<close> and \<^verbatim>\<open>shortestPathWithQueue\<close>: both slices
  are allocated with \<^verbatim>\<open>g.Order()\<close> entries \<open>-1\<close>, the queue \<open>q0\<close> is bound to \<^verbatim>\<open>dist\<close>,
  the source is pushed with cost 0, and the path finder starts with \<^verbatim>\<open>v\<close> zero.
\<close>

definition start :: "Iterator \<Rightarrow> nat list \<Rightarrow> nat \<Rightarrow> error + pathFinder" where
  "start g q0 v =
     Push v 0 (SetDist (replicate (Order g) (-1))
       \<lparr>dist = [], parent = replicate (Order g) (-1), queue = q0, vtx = 0\<rparr>)"

text \<open>\<^verbatim>\<open>for q.Len() > 0 { v = q.Pop(); p.v = v; g.Visit(v, do) }\<close>\<close>

partial_function (option) ShortestPaths_loop ::
  "Iterator \<Rightarrow> pathFinder \<Rightarrow> (error + pathFinder) option" where
  "ShortestPaths_loop g p =
     (if Len p > 0 then
        (case Pop p of
           Inl e \<Rightarrow> Some (Inl e)
         | Inr (u, p1) \<Rightarrow>
             (case Visit g u (p1\<lparr>vtx := u\<rparr>) of
                Inl e \<Rightarrow> Some (Inl e)
              | Inr p2 \<Rightarrow> ShortestPaths_loop g p2))
      else Some (Inr p))"

definition ShortestPaths ::
  "Iterator \<Rightarrow> nat \<Rightarrow> (error + int list \<times> int list) option" where
  "ShortestPaths g v =
     (case start g [] v of
        Inl e \<Rightarrow> Some (Inl e)
      | Inr p \<Rightarrow>
          (case ShortestPaths_loop g p of
             None \<Rightarrow> None
           | Some (Inl e) \<Rightarrow> Some (Inl e)
           | Some (Inr p') \<Rightarrow> Some (Inr (parent p', dist p'))))"

text \<open>
  \<^verbatim>\<open>for q.Len() > 0 { v = q.Pop(); if v == w { return }; p.v = v; g.Visit(v, do) }\<close>
\<close>

partial_function (option) shortestPathWithQueue_loop ::
  "Iterator \<Rightarrow> nat \<Rightarrow> pathFinder \<Rightarrow> (error + pathFinder) option" where
  "shortestPathWithQueue_loop g w p =
     (if Len p > 0 then
        (case Pop p of
           Inl e \<Rightarrow> Some (Inl e)
         | Inr (u, p1) \<Rightarrow>
             if u = w then Some (Inr p1)
             else
               (case Visit g u (p1\<lparr>vtx := u\<rparr>) of
                  Inl e \<Rightarrow> Some (Inl e)
                | Inr p2 \<Rightarrow> shortestPathWithQueue_loop g w p2))
      else Some (Inr p))"

definition shortestPathWithQueue ::
  "Iterator \<Rightarrow> nat list \<Rightarrow> nat \<Rightarrow> nat \<Rightarrow> (error + int list \<times> int list) option" where
  "shortestPathWithQueue g q0 v w =
     (case start g q0 v of
        Inl e \<Rightarrow> Some (Inl e)
      | Inr p \<Rightarrow>
          (case shortestPathWithQueue_loop g w p of
             None \<Rightarrow> None
           | Some (Inl e) \<Rightarrow> Some (Inl e)
           | Some (Inr p') \<Rightarrow> Some (Inr (parent p', dist p'))))"

subsection \<open>Path reconstruction\<close>

text \<open>\<^verbatim>\<open>for v := w; v != -1; v = parent[v] { path = append(path, v) }\<close>\<close>

partial_function (option) collect ::
  "int list \<Rightarrow> int \<Rightarrow> int list \<Rightarrow> (error + int list) option" where
  "collect ps x path =
     (if x \<noteq> -1 then
        (if 0 \<le> x \<and> nat x < length ps
         then collect ps (ps ! nat x) (path @ [x])
         else Some (Inl IndexOutOfRange))
      else Some (Inr path))"

text \<open>
  \<^verbatim>\<open>for i, j := 0, len(path)-1; i < j; i, j = i+1, j-1 { path[i], path[j] = path[j], path[i] }\<close>
\<close>

function reverse :: "int list \<Rightarrow> int \<Rightarrow> int \<Rightarrow> error + int list" where
  "reverse path i j =
     (if i < j then
        (if 0 \<le> i \<and> nat j < length path
         then reverse (path[nat i := path ! nat j, nat j := path ! nat i]) (i + 1) (j - 1)
         else Inl IndexOutOfRange)
      else Inr path)"
  by pat_completeness auto
termination
  by (relation "measure (\<lambda>(path, i, j). nat (j - i))") auto

declare reverse.simps [simp del]

definition ShortestPathWithQueue ::
  "Iterator \<Rightarrow> nat list \<Rightarrow> nat \<Rightarrow> nat \<Rightarrow> (error + int list \<times> int) option" where
  "ShortestPathWithQueue g q0 v w =
     (case shortestPathWithQueue g q0 v w of
        None \<Rightarrow> None
      | Some (Inl e) \<Rightarrow> Some (Inl e)
      | Some (Inr (ps, distances)) \<Rightarrow>
          if \<not> w < length distances then Some (Inl IndexOutOfRange)
          else if distances ! w = -1 then Some (Inr ([], distances ! w))
          else
            (case collect ps (int w) [] of
               None \<Rightarrow> None
             | Some (Inl e) \<Rightarrow> Some (Inl e)
             | Some (Inr path) \<Rightarrow>
                 (case reverse path 0 (int (length path) - 1) of
                    Inl e \<Rightarrow> Some (Inl e)
                  | Inr path' \<Rightarrow> Some (Inr (path', distances ! w)))))"

text \<open>\<^verbatim>\<open>q := &dijkstraQueue{}\<close>: the queue starts empty.\<close>

definition ShortestPath ::
  "Iterator \<Rightarrow> nat \<Rightarrow> nat \<Rightarrow> (error + int list \<times> int) option" where
  "ShortestPath g v w = ShortestPathWithQueue g [] v w"

section \<open>Notions used by the statements\<close>

text \<open>The traversal source without the edge that \<open>edges g u\<close> lists at position \<open>i\<close>.\<close>

definition remove_edge :: "Iterator \<Rightarrow> nat \<Rightarrow> nat \<Rightarrow> Iterator" where
  "remove_edge g u i =
     g\<lparr>edges := (edges g)(u := take i (edges g u) @ drop (Suc i) (edges g u))\<rparr>"

text \<open>Two small traversal sources, the second with an edge of negative cost.\<close>

definition g2 :: Iterator where
  "g2 = \<lparr>Order = 2, edges = (\<lambda>u. if u = 0 then [(1, 5)] else [])\<rparr>"

definition g2neg :: Iterator where
  "g2neg = \<lparr>Order = 2, edges = (\<lambda>u. if u = 0 then [(1, 5), (1, -1)] else [])\<rparr>"

text \<open>
  A traversal source is well formed when every edge of a vertex below \<open>Order g\<close> leads
  to a vertex below \<open>Order g\<close> (the index range of section 3 of the specification).
\<close>

definition wf_graph :: "Iterator \<Rightarrow> bool" where
  "wf_graph g = list_all (\<lambda>u. list_all (\<lambda>(w, c). w < Order g) (edges g u)) [0..<Order g]"

text \<open>
  The sum of the non-negative costs of all edges, and the condition under which no sum
  \<^verbatim>\<open>p.dist[p.v] + d\<close> of a search leaves the range of \<^verbatim>\<open>int64\<close>.
\<close>

definition out_weight :: "Iterator \<Rightarrow> nat \<Rightarrow> int" where
  "out_weight g u = sum_list (map (\<lambda>(w, c). max 0 c) (edges g u))"

definition total_weight :: "Iterator \<Rightarrow> int" where
  "total_weight g = sum_list (map (out_weight g) [0..<Order g])"

definition no_overflow :: "Iterator \<Rightarrow> bool" where
  "no_overflow g = (total_weight g < 2 ^ 63)"

text \<open>
  \<open>is_path g u es w\<close>: the steps \<open>es\<close>, each a pair of the vertex reached and the cost of
  the edge taken, lead from \<open>u\<close> to \<open>w\<close> along edges of non-negative cost;
  \<open>weight es\<close> is the total cost.
\<close>

fun is_path :: "Iterator \<Rightarrow> nat \<Rightarrow> (nat \<times> int) list \<Rightarrow> nat \<Rightarrow> bool" where
  "is_path g u [] w = (u = w)"
| "is_path g u ((x, c) # es) w = ((x, c) \<in> set (edges g u) \<and> 0 \<le> c \<and> is_path g x es w)"

definition weight :: "(nat \<times> int) list \<Rightarrow> int" where
  "weight es = sum_list (map snd es)"

subsection \<open>Invariants of the search\<close>

text \<open>
  The invariants speak about the path finder \<open>p\<close> and the list \<open>D\<close> of the vertices
  popped so far, in the order of the pops; \<open>R\<close> is the set of the edges on which \<open>Do\<close>
  has run for the vertices of \<open>D\<close>.
  \<^item> \<open>shape\<close>: both slices have \<open>Order g\<close> entries and the queue holds distinct vertices.
  \<^item> \<open>src\<close>: the source has distance 0 and no parent.
  \<^item> \<open>part\<close>: the vertices with a distance other than \<open>-1\<close> are the popped and the queued
    ones, and no popped vertex is in the queue.
  \<^item> \<open>bounded\<close>: a distance other than \<open>-1\<close> lies between 0 and the cost \<open>spent\<close>, the sum
    of the non-negative costs of the edges of the popped vertices.
  \<^item> \<open>sound\<close>: a distance other than \<open>-1\<close> is the weight of a path from the source.
  \<^item> \<open>closed\<close>: along every relaxed edge of non-negative cost the distance grows by at
    most the cost.
  \<^item> \<open>ordered\<close>: the distances are non-decreasing along \<open>D\<close> and no queued vertex is
    closer than a popped one.
  \<^item> \<open>tree\<close>: a vertex without distance has no parent; the parent of any other vertex but
    the source is a popped vertex, one edge before it; the parent of a popped vertex was
    popped earlier.
\<close>

definition spent :: "Iterator \<Rightarrow> nat list \<Rightarrow> int" where
  "spent g D = sum_list (map (out_weight g) D)"

definition full :: "Iterator \<Rightarrow> nat list \<Rightarrow> (nat \<times> nat \<times> int) set" where
  "full g D = {(x, w, c). x \<in> set D \<and> (w, c) \<in> set (edges g x)}"

definition shape :: "Iterator \<Rightarrow> pathFinder \<Rightarrow> bool" where
  "shape g p = (length (dist p) = Order g \<and> length (parent p) = Order g \<and>
     (\<forall>x \<in> set (queue p). x < Order g) \<and> distinct (queue p))"

definition src :: "Iterator \<Rightarrow> nat \<Rightarrow> pathFinder \<Rightarrow> bool" where
  "src g v0 p = (v0 < Order g \<and> dist p ! v0 = 0 \<and> parent p ! v0 = -1)"

definition part :: "Iterator \<Rightarrow> nat list \<Rightarrow> pathFinder \<Rightarrow> bool" where
  "part g D p = (distinct D \<and> (\<forall>x \<in> set D. x < Order g \<and> x \<notin> set (queue p)) \<and>
     (\<forall>w < Order g. (dist p ! w \<noteq> -1) = (w \<in> set D \<or> w \<in> set (queue p))))"

definition bounded :: "Iterator \<Rightarrow> nat list \<Rightarrow> pathFinder \<Rightarrow> bool" where
  "bounded g D p = (\<forall>w < Order g. dist p ! w \<noteq> -1 \<longrightarrow> 0 \<le> dist p ! w \<and> dist p ! w \<le> spent g D)"

definition sound :: "Iterator \<Rightarrow> nat \<Rightarrow> pathFinder \<Rightarrow> bool" where
  "sound g v0 p = (\<forall>w < Order g. dist p ! w \<noteq> -1 \<longrightarrow>
     (\<exists>es. is_path g v0 es w \<and> weight es = dist p ! w))"

definition closed :: "(nat \<times> nat \<times> int) set \<Rightarrow> pathFinder \<Rightarrow> bool" where
  "closed R p = (\<forall>(u, w, c) \<in> R. 0 \<le> c \<longrightarrow> dist p ! w \<noteq> -1 \<and> dist p ! w \<le> dist p ! u + c)"

definition ordered :: "nat list \<Rightarrow> pathFinder \<Rightarrow> bool" where
  "ordered D p = (sorted (map (\<lambda>u. dist p ! u) D) \<and>
     (\<forall>u \<in> set D. \<forall>w \<in> set (queue p). dist p ! u \<le> dist p ! w))"

definition tree :: "Iterator \<Rightarrow> nat \<Rightarrow> nat list \<Rightarrow> pathFinder \<Rightarrow> bool" where
  "tree g v0 D p =
     ((\<forall>w < Order g. dist p ! w = -1 \<longrightarrow> parent p ! w = -1) \<and>
      (\<forall>w < Order g. dist p ! w \<noteq> -1 \<and> w \<noteq> v0 \<longrightarrow>
         (\<exists>u c. parent p ! w = int u \<and> u \<in> set D \<and> (w, c) \<in> set (edges g u) \<and> 0 \<le> c \<and>
                dist p ! w = dist p ! u + c)) \<and>
      (\<forall>i < length D. \<forall>u. parent p ! (D ! i) = int u \<longrightarrow> u \<in> set (take i D)))"

definition invar :: "Iterator \<Rightarrow> nat \<Rightarrow> nat list \<Rightarrow> (nat \<times> nat \<times> int) set \<Rightarrow> pathFinder \<Rightarrow> bool" where
  "invar g v0 D R p = (shape g p \<and> src g v0 p \<and> part g D p \<and> bounded g D p \<and> sound g v0 p \<and>
     closed R p \<and> (\<forall>(u, w, c) \<in> R. u \<in> set D) \<and> ordered D p \<and> tree g v0 D p)"

text \<open>The effect of a relaxation that changes the entry of \<open>w\<close>.\<close>

definition upd :: "pathFinder \<Rightarrow> nat \<Rightarrow> int \<Rightarrow> nat list \<Rightarrow> pathFinder" where
  "upd p w alt Q = p\<lparr>parent := (parent p)[w := int (vtx p)], dist := (dist p)[w := alt], queue := Q\<rparr>"

subsection \<open>Inputs on which sums leave the range of \<^verbatim>\<open>int64\<close>\<close>

text \<open>Every cost of the traversal source is a value of \<^verbatim>\<open>int64\<close>.\<close>

definition int64_costs :: "Iterator \<Rightarrow> bool" where
  "int64_costs g =
     list_all (\<lambda>u. list_all (\<lambda>(w, c). - (2 ^ 63) \<le> c \<and> c < 2 ^ 63) (edges g u)) [0..<Order g]"

text \<open>A traversal source on which a distance wraps around to \<open>- (2 ^ 63)\<close>.\<close>

definition g_ovf :: Iterator where
  "g_ovf = \<lparr>Order = 3,
            edges = (\<lambda>u. if u = 0 then [(1, 2 ^ 62)] else if u = 1 then [(2, 2 ^ 62)] else [])\<rparr>"

text \<open>A traversal source on which a distance wraps around to \<open>-1\<close>.\<close>

definition g_m1 :: Iterator where
  "g_m1 = \<lparr>Order = 4,
           edges = (\<lambda>u. if u = 0 then [(1, 2 ^ 63 - 1)] else if u = 1 then [(2, 2 ^ 63 - 1)]
                        else if u = 2 then [(3, 1)] else if u = 3 then [(3, 1)] else [])\<rparr>"

text \<open>
  A traversal source on which the search does not return: vertex 3 gets the wrapped
  distance \<open>-1\<close> and has a loop of cost 0.
\<close>

definition g_loop :: Iterator where
  "g_loop = \<lparr>Order = 5,
             edges = (\<lambda>u. if u = 0 then [(1, 2 ^ 63 - 1)] else if u = 1 then [(2, 2 ^ 63 - 1)]
                          else if u = 2 then [(3, 1)] else if u = 3 then [(3, 0)] else [])\<rparr>"

text \<open>The invariant inside \<^verbatim>\<open>g.Visit(v, do)\<close>: the last vertex of \<open>D\<close> is being visited.\<close>

definition mid :: "Iterator \<Rightarrow> nat \<Rightarrow> nat list \<Rightarrow> (nat \<times> nat \<times> int) set \<Rightarrow> pathFinder \<Rightarrow> bool" where
  "mid g v0 D R p = (invar g v0 D R p \<and> D \<noteq> [] \<and> last D = vtx p \<and>
     dist p ! vtx p + out_weight g (vtx p) \<le> spent g D)"

text \<open>The invariant at the head of the loop: every edge of every popped vertex is relaxed.\<close>

definition outer :: "Iterator \<Rightarrow> nat \<Rightarrow> nat list \<Rightarrow> pathFinder \<Rightarrow> bool" where
  "outer g v0 D p = invar g v0 D (full g D) p"

subsection \<open>The states of a run of \<^verbatim>\<open>ShortestPaths\<close>\<close>

text \<open>
  \<open>run g v D es p\<close>: the search \<open>ShortestPaths g v\<close> reaches the path finder \<open>p\<close> after
  it has popped the vertices \<open>D\<close>, in this order, when the visit of the vertex popped last
  still has the edges \<open>es\<close> to hand to \<open>Do\<close>. With \<open>es = []\<close> the search is at the head of
  its loop. The rules are the steps of the source: the prologue, a pop at the head of the
  loop, and a call of \<open>Do\<close> by \<^verbatim>\<open>g.Visit\<close>.
\<close>

inductive run :: "Iterator \<Rightarrow> nat \<Rightarrow> nat list \<Rightarrow> (nat \<times> int) list \<Rightarrow> pathFinder \<Rightarrow> bool"
  for g :: Iterator and v :: nat where
  init: "start g [] v = Inr p \<Longrightarrow> run g v [] [] p"
| pop: "run g v D [] p \<Longrightarrow> 0 < Len p \<Longrightarrow> Pop p = Inr (u, p1) \<Longrightarrow>
        run g v (D @ [u]) (edges g u) (p1\<lparr>vtx := u\<rparr>)"
| relax: "run g v D ((w, d) # es) p \<Longrightarrow> Do p w d = Inr (skip, p') \<Longrightarrow>
        run g v D (if skip then [] else es) p'"

text \<open>What the search still computes from a state of the run.\<close>

definition rest :: "Iterator \<Rightarrow> (nat \<times> int) list \<Rightarrow> pathFinder \<Rightarrow> (error + pathFinder) option" where
  "rest g es p = (case visit es p of Inl e \<Rightarrow> Some (Inl e) | Inr p2 \<Rightarrow> ShortestPaths_loop g p2)"

text \<open>
  The state in which the search for the target \<open>w\<close> ends: the invariants hold for the
  popped vertices \<open>D\<close>, the target is among them if it was reached, and its distance is
  at most the weight of every path to it.
\<close>

definition target_done :: "Iterator \<Rightarrow> nat \<Rightarrow> nat \<Rightarrow> pathFinder \<Rightarrow> bool" where
  "target_done g v0 w p =
     ((\<exists>D R. invar g v0 D R p \<and> (dist p ! w \<noteq> -1 \<longrightarrow> w \<in> set D)) \<and>
      (\<forall>es. is_path g v0 es w \<longrightarrow> dist p ! w \<noteq> -1 \<and> dist p ! w \<le> weight es))"

text \<open>
  \<open>climb ps k x\<close>: following the parent links \<open>ps\<close> from \<open>x\<close> reaches the sentinel \<open>-1\<close>
  in at most \<open>k\<close> steps, every index on the way being in range.
\<close>

fun climb :: "int list \<Rightarrow> nat \<Rightarrow> int \<Rightarrow> bool" where
  "climb ps 0 x = (x = -1)"
| "climb ps (Suc k) x = (x = -1 \<or> (0 \<le> x \<and> nat x < length ps \<and> climb ps k (ps ! nat x)))"

section \<open>Basic facts about the model\<close>

lemma start_valid:
  "v < Order g \<Longrightarrow>
   start g q0 v = Inr \<lparr>dist = (replicate (Order g) (-1))[v := 0],
                       parent = replicate (Order g) (-1), queue = q0 @ [v], vtx = 0\<rparr>"
  by (simp add: start_def SetDist_def Push_def)

lemma Pop_single:
  "v < length (dist p) \<Longrightarrow> queue p = [v] \<Longrightarrow> Pop p = Inr (v, p\<lparr>queue := []\<rparr>)"
  by (simp add: Pop_def)

lemma visit_skip_negative:
  "c < 0 \<Longrightarrow> visit (es1 @ (w, c) # es2) p = visit (es1 @ es2) p"
proof (induction es1 arbitrary: p)
  case Nil
  then show ?case by (simp add: Do_def)
next
  case (Cons e es1)
  obtain x d where e: "e = (x, d)" by (cases e)
  show ?case
    using Cons by (simp add: e split: sum.splits prod.splits)
qed

lemma ShortestPaths_loop_cong_Some:
  assumes "ShortestPaths_loop g p = Some r"
  shows "\<forall>g'. (\<forall>u s. Visit g' u s = Visit g u s) \<longrightarrow> ShortestPaths_loop g' p = Some r"
proof (rule ShortestPaths_loop.raw_induct
    [where P = "\<lambda>g p r. \<forall>g'. (\<forall>u s. Visit g' u s = Visit g u s) \<longrightarrow> ShortestPaths_loop g' p = Some r",
     OF _ assms])
  fix lp g p r
  assume 1: "\<And>g p y. lp g p = Some y \<Longrightarrow>
      \<forall>g'. (\<forall>u s. Visit g' u s = Visit g u s) \<longrightarrow> ShortestPaths_loop g' p = Some y"
    "(if 0 < Len p
        then case Pop p of Inl e \<Rightarrow> Some (Inl e)
          | Inr (u, p1) \<Rightarrow>
              (case Visit g u (p1\<lparr>vtx := u\<rparr>) of Inl e \<Rightarrow> Some (Inl e)
               | Inr p2 \<Rightarrow> lp g p2)
        else Some (Inr p)) = Some r"
  show "\<forall>g'. (\<forall>u s. Visit g' u s = Visit g u s) \<longrightarrow> ShortestPaths_loop g' p = Some r"
  proof (intro allI impI)
    fix g' assume V: "\<forall>u s. Visit g' u s = Visit g u s"
    show "ShortestPaths_loop g' p = Some r"
    proof (cases "Len p > 0")
      case False
      then show ?thesis using 1(2) by (subst ShortestPaths_loop.simps) simp
    next
      case True
      show ?thesis
      proof (cases "Pop p")
        case (Inl e)
        then show ?thesis using 1(2) True by (subst ShortestPaths_loop.simps) simp
      next
        case (Inr up)
        obtain u p1 where up: "up = (u, p1)" by (cases up)
        show ?thesis
        proof (cases "Visit g u (p1\<lparr>vtx := u\<rparr>)")
          case Inl' : (Inl e)
          have "r = Inl e" using 1(2) True Inr up by (simp add: Inl')
          then show ?thesis
            by (subst ShortestPaths_loop.simps) (simp add: True Inr up V Inl')
        next
          case Inr' : (Inr p2)
          have "lp g p2 = Some r" using 1(2) True Inr up by (simp add: Inr')
          then have "ShortestPaths_loop g' p2 = Some r" using 1(1) V by blast
          then show ?thesis
            by (subst ShortestPaths_loop.simps) (simp add: True Inr up V Inr')
        qed
      qed
    qed
  qed
qed

lemma ShortestPaths_loop_cong:
  assumes V: "\<forall>u s. Visit g' u s = Visit g u s"
  shows "ShortestPaths_loop g' p = ShortestPaths_loop g p"
proof (cases "ShortestPaths_loop g p")
  case (Some r)
  then show ?thesis using ShortestPaths_loop_cong_Some [of g p r] V by metis
next
  case None
  show ?thesis
  proof (rule ccontr)
    assume "ShortestPaths_loop g' p \<noteq> ShortestPaths_loop g p"
    then obtain r where "ShortestPaths_loop g' p = Some r" using None by (cases "ShortestPaths_loop g' p") auto 
    then have "ShortestPaths_loop g p = Some r"
      using ShortestPaths_loop_cong_Some [of g' p r] V by metis
    then show False using None by simp
  qed
qed

lemma Visit_remove_edge:
  assumes "i < length (edges g u)" "snd (edges g u ! i) < 0"
  shows "Visit (remove_edge g u i) x s = Visit g x s"
proof (cases "x = u")
  case True
  obtain w c where e: "edges g u ! i = (w, c)" by (cases "edges g u ! i")
  have "edges g u = take i (edges g u) @ (w, c) # drop (Suc i) (edges g u)"
    using id_take_nth_drop [OF assms(1)] e by simp
  then have "visit (edges g u) s = visit (take i (edges g u) @ drop (Suc i) (edges g u)) s"
    using visit_skip_negative [of c "take i (edges g u)" w "drop (Suc i) (edges g u)" s] assms(2) e
    by simp
  then show ?thesis using True by (simp add: Visit_def remove_edge_def)
next
  case False
  then show ?thesis by (simp add: Visit_def remove_edge_def)
qed

section \<open>Initialisation and relaxation\<close>

text \<open>
  C7. Before the main loop every entry of \<open>dist\<close> and of \<open>parent\<close> is \<open>-1\<close>, except
  that \<open>dist\<close> of the source is 0, and the source is the one vertex in the queue. A call
  of \<open>Do\<close> for a non-negative edge to a vertex \<open>w\<close> with \<open>dist ! w = -1\<close> sets the parent
  of \<open>w\<close> to the current vertex, sets \<open>dist ! w\<close> to \<open>alt\<close> and pushes \<open>w\<close>; a call with
  \<open>alt < dist ! w\<close> for a vertex reached before sets the parent and \<open>dist ! w\<close> the same
  way and leaves the content of the queue as it is (the decrease of the key is the write
  to \<open>dist\<close>). Here \<open>alt\<close> is the sum \<open>dist ! vtx p + d\<close> in 64-bit arithmetic.
\<close>

theorem relaxation_steps:
  "(v0 < Order g \<longrightarrow>
      start g [] v0 = Inr \<lparr>dist = (replicate (Order g) (-1))[v0 := 0],
                           parent = replicate (Order g) (-1), queue = [v0], vtx = 0\<rparr>) \<and>
   (0 \<le> d \<and> vtx p < length (dist p) \<and> w < length (dist p) \<and> w < length (parent p) \<and>
    dist p ! w = -1 \<longrightarrow>
      Do p w d = Inr (False, p\<lparr>parent := (parent p)[w := int (vtx p)],
                               dist := (dist p)[w := int64 (dist p ! vtx p + d)],
                               queue := queue p @ [w]\<rparr>)) \<and>
   (0 \<le> d' \<and> vtx p' < length (dist p') \<and> w' < length (dist p') \<and>
    w' < length (parent p') \<and> dist p' ! w' \<noteq> -1 \<and>
    int64 (dist p' ! vtx p' + d') < dist p' ! w' \<longrightarrow>
      Do p' w' d' = Inr (False, p'\<lparr>parent := (parent p')[w' := int (vtx p')],
                                  dist := (dist p')[w' := int64 (dist p' ! vtx p' + d')]\<rparr>))"
  using start_valid [of v0 g "[]"]
  by (simp add: Do_def Push_def Fix_def Let_def)

theorem relaxation_steps_witness:
  "(0::nat) < Order g2 \<and>
   start g2 [] 0 = Inr \<lparr>dist = [0, -1], parent = [-1, -1], queue = [0], vtx = 0\<rparr> \<and>
   Do \<lparr>dist = [0, -1], parent = [-1, -1], queue = [], vtx = 0\<rparr> 1 5 =
     Inr (False, \<lparr>dist = [0, 5], parent = [-1, 0], queue = [1], vtx = 0\<rparr>) \<and>
   Do \<lparr>dist = [0, 7, 1], parent = [-1, 0, 0], queue = [1], vtx = 2\<rparr> 1 2 =
     Inr (False, \<lparr>dist = [0, 3, 1], parent = [-1, 2, 0], queue = [1], vtx = 2\<rparr>)"
  using relaxation_steps
    [of 0 g2 5 "\<lparr>dist = [0, -1], parent = [-1, -1], queue = [], vtx = 0\<rparr>" 1
        2 "\<lparr>dist = [0, 7, 1], parent = [-1, 0, 0], queue = [1], vtx = 2\<rparr>" 1]
  by (simp add: g2_def int64_def numeral_2_eq_2)

section \<open>Negative edges\<close>

text \<open>
  C2. An edge of negative weight is skipped by the relaxation: \<open>Do\<close> returns the path
  finder as it is (so \<open>dist\<close>, \<open>parent\<close> and the queue are untouched), and the search on
  the traversal source without that edge has the same outcome as the search on the
  source itself; in particular the \<open>dist\<close> slices agree.
\<close>

theorem negative_edge_skipped:
  "(d < 0 \<longrightarrow> Do p w d = Inr (False, p)) \<and>
   (i < length (edges g u) \<and> snd (edges g u ! i) < 0 \<longrightarrow>
      ShortestPaths (remove_edge g u i) v = ShortestPaths g v)"
proof (intro conjI impI)
  assume "d < 0" then show "Do p w d = Inr (False, p)" by (simp add: Do_def)
next
  assume a: "i < length (edges g u) \<and> snd (edges g u ! i) < 0"
  have V: "\<forall>x s. Visit (remove_edge g u i) x s = Visit g x s"
    using a Visit_remove_edge by blast
  have O: "start (remove_edge g u i) [] v = start g [] v"
    by (simp add: start_def remove_edge_def)
  show "ShortestPaths (remove_edge g u i) v = ShortestPaths g v"
    by (simp only: ShortestPaths_def O ShortestPaths_loop_cong [OF V])
qed

theorem negative_edge_skipped_witness:
  "(-1::int) < 0 \<and> Do \<lparr>dist = [0, 5], parent = [-1, 0], queue = [1], vtx = 0\<rparr> 1 (-1) =
      Inr (False, \<lparr>dist = [0, 5], parent = [-1, 0], queue = [1], vtx = 0\<rparr>) \<and>
   1 < length (edges g2neg 0) \<and> snd (edges g2neg 0 ! 1) < 0 \<and>
   ShortestPaths (remove_edge g2neg 0 1) 0 = ShortestPaths g2neg 0"
  using negative_edge_skipped
    [of "-1" "\<lparr>dist = [0, 5], parent = [-1, 0], queue = [1], vtx = 0\<rparr>" 1 1 g2neg 0 0]
  by (simp add: g2neg_def)

section \<open>Source equals target\<close>

text \<open>
  C9. For every traversal source \<open>g\<close> and vertex \<open>v\<close> below \<open>Order g\<close>,
  \<open>ShortestPath g v v\<close> returns the one-element path \<open>[v]\<close> and the distance 0.
\<close>

theorem source_equals_target:
  "v < Order g \<Longrightarrow> ShortestPath g v v = Some (Inr ([int v], 0))"
proof -
  assume v: "v < Order g"
  let ?p = "\<lparr>dist = (replicate (Order g) (-1))[v := 0],
             parent = replicate (Order g) (-1), queue = [v], vtx = 0\<rparr>"
  have s: "start g [] v = Inr ?p" using start_valid [OF v, of "[]"] by simp
  have l: "shortestPathWithQueue_loop g v ?p = Some (Inr (?p\<lparr>queue := []\<rparr>))"
    using v by (subst shortestPathWithQueue_loop.simps) (simp add: Len_def Pop_single)
  have q: "shortestPathWithQueue g [] v v =
      Some (Inr (replicate (Order g) (-1), (replicate (Order g) (-1))[v := 0]))"
    by (simp add: shortestPathWithQueue_def s l)
  have c1: "collect (replicate (Order g) (-1)) (-1) [int v] = Some (Inr [int v])"
    by (subst collect.simps) simp
  have c: "collect (replicate (Order g) (-1)) (int v) [] = Some (Inr [int v])"
    using v by (subst collect.simps) (simp add: c1)
  have r: "reverse [int v] 0 0 = Inr [int v]" by (simp add: reverse.simps)
  show ?thesis
    using v by (simp add: ShortestPath_def ShortestPathWithQueue_def q c r)
qed

theorem source_equals_target_witness:
  "(0::nat) < Order g2 \<and> ShortestPath g2 0 0 = Some (Inr ([0], 0))"
  using source_equals_target [of 0 g2] by (simp add: g2_def)

section \<open>Arithmetic, paths and the queue\<close>

lemma int64_id: "- (2 ^ 63) \<le> x \<Longrightarrow> x < 2 ^ 63 \<Longrightarrow> int64 x = x"
  by (simp add: int64_def)

lemma wf_graph_iff:
  "wf_graph g \<longleftrightarrow> (\<forall>u < Order g. \<forall>(w, c) \<in> set (edges g u). w < Order g)"
  by (auto simp: wf_graph_def list_all_iff)

lemma out_weight_nonneg: "0 \<le> out_weight g u"
  unfolding out_weight_def by (rule sum_list_nonneg) auto

lemma le_sum_list_nonneg:
  fixes f :: "'a \<Rightarrow> int"
  shows "(\<forall>y \<in> set xs. 0 \<le> f y) \<Longrightarrow> x \<in> set xs \<Longrightarrow> f x \<le> sum_list (map f xs)"
proof (induction xs)
  case Nil
  then show ?case by simp
next
  case (Cons a xs)
  have "0 \<le> sum_list (map f xs)" using Cons.prems(1) by (intro sum_list_nonneg) auto
  moreover have "0 \<le> f a" using Cons.prems(1) by simp
  ultimately show ?case using Cons by (cases "x = a") auto
qed

lemma edge_le_out_weight: "(w, c) \<in> set (edges g u) \<Longrightarrow> c \<le> out_weight g u"
proof -
  assume a: "(w, c) \<in> set (edges g u)"
  have "(\<lambda>(w, c). max 0 c) (w, c) \<le> out_weight g u"
    unfolding out_weight_def by (rule le_sum_list_nonneg [OF _ a]) auto
  then show ?thesis by simp
qed

lemma spent_le_total:
  assumes "distinct D" "\<forall>x \<in> set D. x < Order g"
  shows "spent g D \<le> total_weight g"
proof -
  have "spent g D = sum (out_weight g) (set D)"
    unfolding spent_def using assms(1) by (simp add: sum_list_distinct_conv_sum_set)
  also have "\<dots> \<le> sum (out_weight g) {0..<Order g}"
    using assms(2) by (intro sum_mono2) (auto simp: out_weight_nonneg)
  also have "\<dots> = total_weight g"
    unfolding total_weight_def by (simp add: sum_list_distinct_conv_sum_set)
  finally show ?thesis .
qed

lemma spent_snoc: "spent g (D @ [u]) = spent g D + out_weight g u"
  by (simp add: spent_def)

lemma is_path_snoc:
  "is_path g u (es @ [(x, c)]) w \<longleftrightarrow>
     (\<exists>y. is_path g u es y \<and> (x, c) \<in> set (edges g y) \<and> 0 \<le> c \<and> x = w)"
  by (induction es arbitrary: u) auto

lemma weight_snoc: "weight (es @ [(x, c)]) = weight es + c"
  by (simp add: weight_def)

lemma weight_Nil: "weight [] = 0"
  by (simp add: weight_def)

lemma weight_Cons: "weight ((x, c) # es) = c + weight es"
  by (simp add: weight_def)

lemma is_path_weight_nonneg: "is_path g u es w \<Longrightarrow> 0 \<le> weight es"
  by (induction es arbitrary: u) (auto simp: weight_Nil weight_Cons)

lemma min_vertex_mem: "min_vertex ds m xs \<in> set (m # xs)"
  by (induction xs arbitrary: m) auto

lemma min_vertex_le_start: "ds ! min_vertex ds m xs \<le> ds ! m"
proof (induction xs arbitrary: m)
  case Nil
  then show ?case by simp
next
  case (Cons x xs)
  show ?case using Cons [of "if ds ! x < ds ! m then x else m"] by (auto split: if_splits)
qed

lemma min_vertex_le: "y \<in> set (m # xs) \<Longrightarrow> ds ! min_vertex ds m xs \<le> ds ! y"
proof (induction xs arbitrary: m)
  case Nil
  then show ?case by simp
next
  case (Cons x xs)
  let ?m = "if ds ! x < ds ! m then x else m"
  have s: "ds ! min_vertex ds ?m xs \<le> ds ! ?m" by (rule min_vertex_le_start)
  show ?case
  proof (cases "y \<in> set xs")
    case True
    then show ?thesis using Cons.IH [of ?m] by simp
  next
    case False
    then have "y = m \<or> y = x" using Cons.prems by auto
    then show ?thesis using s by (auto split: if_splits)
  qed
qed

lemma Pop_ok:
  assumes "queue p \<noteq> []" "\<forall>y \<in> set (queue p). y < length (dist p)"
  shows "\<exists>u. Pop p = Inr (u, p\<lparr>queue := remove1 u (queue p)\<rparr>) \<and> u \<in> set (queue p) \<and>
             (\<forall>y \<in> set (queue p). dist p ! u \<le> dist p ! y)"
proof -
  obtain x xs where q: "queue p = x # xs" using assms(1) by (cases "queue p") auto
  let ?u = "min_vertex (dist p) x xs"
  have "Pop p = Inr (?u, p\<lparr>queue := remove1 ?u (queue p)\<rparr>)"
    using assms(2) by (simp add: Pop_def q list_all_iff Let_def)
  moreover have "?u \<in> set (queue p)" using min_vertex_mem [of "dist p" x xs] q by simp
  moreover have "\<forall>y \<in> set (queue p). dist p ! ?u \<le> dist p ! y"
    using min_vertex_le [of _ x xs "dist p"] q by simp
  ultimately show ?thesis by blast
qed

lemma Do_negative: "d < 0 \<Longrightarrow> Do p w d = Inr (False, p)"
  by (simp add: Do_def)

lemma Do_relax:
  assumes "0 \<le> d" "vtx p < length (dist p)" "w < length (dist p)" "w < length (parent p)"
  shows "Do p w d = Inr (False,
     (if dist p ! w = -1 then upd p w (int64 (dist p ! vtx p + d)) (queue p @ [w])
      else if int64 (dist p ! vtx p + d) < dist p ! w
           then upd p w (int64 (dist p ! vtx p + d)) (queue p)
           else p))"
  using assms by (simp add: Do_def Push_def Fix_def Let_def upd_def)

section \<open>A relaxation preserves the invariants\<close>

lemma upd_simps:
  "dist (upd p w alt Q) = (dist p)[w := alt]"
  "parent (upd p w alt Q) = (parent p)[w := int (vtx p)]"
  "queue (upd p w alt Q) = Q"
  "vtx (upd p w alt Q) = vtx p"
  by (simp_all add: upd_def)

lemma sorted_map_le_last:
  "sorted (map f D) \<Longrightarrow> x \<in> set D \<Longrightarrow> f x \<le> f (last D)"
proof (induction D)
  case Nil
  then show ?case by simp
next
  case (Cons a D)
  then show ?case by (cases "D = []") auto
qed

lemma invar_upd:
  assumes I: "invar g v0 D R p"
    and D: "D \<noteq> []" "last D = vtx p"
    and e: "(w, c) \<in> set (edges g (vtx p))" "0 \<le> c" "w < Order g"
    and room: "dist p ! vtx p + out_weight g (vtx p) \<le> spent g D"
    and alt: "alt = dist p ! vtx p + c"
    and cs: "(dist p ! w = -1 \<and> Q = queue p @ [w]) \<or>
             (dist p ! w \<noteq> -1 \<and> alt < dist p ! w \<and> Q = queue p)"
  shows "invar g v0 D (insert (vtx p, w, c) R) (upd p w alt Q) \<and> w \<notin> set D"
proof -
  let ?u = "vtx p"
  let ?p = "upd p w alt Q"
  from I have sh: "shape g p" and sr: "src g v0 p" and pa: "part g D p" and bo: "bounded g D p"
    and so: "sound g v0 p" and cl: "closed R p" and RD: "\<forall>(u, w, c) \<in> R. u \<in> set D"
    and mo: "ordered D p" and tr: "tree g v0 D p"
    by (simp_all add: invar_def)
  have len: "length (dist p) = Order g" "length (parent p) = Order g"
    using sh by (simp_all add: shape_def)
  have uD: "?u \<in> set D" using D by (metis last_in_set)
  have un: "?u < Order g" and uq: "?u \<notin> set (queue p)" using pa uD by (auto simp: part_def)
  have ud: "dist p ! ?u \<noteq> -1" using pa uD un by (auto simp: part_def)
  have u0: "0 \<le> dist p ! ?u" using bo un ud by (auto simp: bounded_def)
  have cle: "c \<le> out_weight g ?u" using e(1) by (rule edge_le_out_weight)
  have alt0: "0 \<le> alt" "alt \<le> spent g D" "dist p ! ?u \<le> alt" "alt \<noteq> -1"
    using u0 e(2) alt cle room by auto
  have Dle: "\<And>x. x \<in> set D \<Longrightarrow> dist p ! x \<le> dist p ! ?u"
    using sorted_map_le_last [of "\<lambda>u. dist p ! u" D] mo D by (auto simp: ordered_def)
  have wD: "w \<notin> set D"
  proof
    assume a: "w \<in> set D"
    then have "dist p ! w \<noteq> -1" using pa e(3) by (auto simp: part_def)
    moreover have "dist p ! w \<le> alt" using Dle [OF a] alt0 by simp
    ultimately show False using cs by auto
  qed
  have wu: "w \<noteq> ?u" using wD uD by auto
  have w0: "w \<noteq> v0"
  proof
    assume "w = v0"
    then have "dist p ! w = 0" using sr by (simp add: src_def)
    then show False using cs alt0 by auto
  qed
  have Qset: "set Q = insert w (set (queue p))"
  proof -
    have "dist p ! w \<noteq> -1 \<Longrightarrow> w \<in> set (queue p)"
      using pa e(3) wD by (auto simp: part_def)
    then show ?thesis using cs by auto
  qed
  have Qdist: "distinct Q"
  proof -
    have "dist p ! w = -1 \<Longrightarrow> w \<notin> set (queue p)"
      using pa e(3) by (auto simp: part_def)
    then show ?thesis using cs sh by (auto simp: shape_def)
  qed
  have dn: "\<And>x. x \<noteq> w \<Longrightarrow> dist ?p ! x = dist p ! x"
    and dw: "dist ?p ! w = alt"
    and pn: "\<And>x. x \<noteq> w \<Longrightarrow> parent ?p ! x = parent p ! x"
    and pw: "parent ?p ! w = int ?u"
    using e(3) len by (simp_all add: upd_simps)
  have dD: "\<And>x. x \<in> set D \<Longrightarrow> dist ?p ! x = dist p ! x" using wD dn by metis
  have pD: "\<And>x. x \<in> set D \<Longrightarrow> parent ?p ! x = parent p ! x" using wD pn by metis
  have 1: "shape g ?p"
    using sh e(3) Qset Qdist by (simp add: shape_def upd_simps)
  have 2: "src g v0 ?p"
    using sr w0 dn [of v0] pn [of v0] by (simp add: src_def)
  have 3: "part g D ?p"
    unfolding part_def
  proof (intro conjI allI impI ballI)
    show "distinct D" using pa by (simp add: part_def)
  next
    fix x assume "x \<in> set D"
    then show "x < Order g" using pa by (simp add: part_def)
  next
    fix x assume "x \<in> set D"
    then show "x \<notin> set (queue ?p)" using pa wD by (auto simp: part_def upd_simps Qset)
  next
    fix x assume x: "x < Order g"
    show "(dist ?p ! x \<noteq> -1) = (x \<in> set D \<or> x \<in> set (queue ?p))"
    proof (cases "x = w")
      case True
      then show ?thesis using dw alt0 by (simp add: upd_simps Qset)
    next
      case False
      then show ?thesis using pa x dn [OF False] by (simp add: part_def upd_simps Qset)
    qed
  qed
  have 4: "bounded g D ?p"
    unfolding bounded_def
  proof (intro allI impI)
    fix x assume x: "x < Order g" "dist ?p ! x \<noteq> -1"
    show "0 \<le> dist ?p ! x \<and> dist ?p ! x \<le> spent g D"
    proof (cases "x = w")
      case True
      then show ?thesis using dw alt0 by simp
    next
      case False
      then show ?thesis using bo x dn [OF False] by (simp add: bounded_def)
    qed
  qed
  have 5: "sound g v0 ?p"
    unfolding sound_def
  proof (intro allI impI)
    fix x assume x: "x < Order g" "dist ?p ! x \<noteq> -1"
    show "\<exists>es. is_path g v0 es x \<and> weight es = dist ?p ! x"
    proof (cases "x = w")
      case True
      obtain es where es: "is_path g v0 es ?u" "weight es = dist p ! ?u"
        using so un ud by (auto simp: sound_def)
      have "is_path g v0 (es @ [(w, c)]) w" using es(1) e by (auto simp: is_path_snoc)
      moreover have "weight (es @ [(w, c)]) = alt" using es(2) alt by (simp add: weight_snoc)
      ultimately show ?thesis using True dw by auto
    next
      case False
      then show ?thesis using so x dn [OF False] by (simp add: sound_def)
    qed
  qed
  have 6: "closed (insert (?u, w, c) R) ?p"
    unfolding closed_def
  proof (intro ballI, clarify)
    fix x y k assume m: "(x, y, k) \<in> insert (?u, w, c) R" and k: "0 \<le> k"
    show "dist ?p ! y \<noteq> -1 \<and> dist ?p ! y \<le> dist ?p ! x + k"
    proof (cases "(x, y, k) = (?u, w, c)")
      case True
      then show ?thesis using dw dD [OF uD] alt alt0 by simp
    next
      case False
      then have R: "(x, y, k) \<in> R" using m by auto
      then have xD: "x \<in> set D" using RD by auto
      have old: "dist p ! y \<noteq> -1" "dist p ! y \<le> dist p ! x + k"
        using cl R k by (auto simp: closed_def)
      show ?thesis
      proof (cases "y = w")
        case True
        then show ?thesis using old cs dw dD [OF xD] alt0 by auto
      next
        case False
        then show ?thesis using old dn [OF False] dD [OF xD] by simp
      qed
    qed
  qed
  have 7: "\<forall>(x, y, k) \<in> insert (?u, w, c) R. x \<in> set D" using RD uD by auto
  have 8: "ordered D ?p"
    unfolding ordered_def
  proof (intro conjI ballI)
    have eq: "map (\<lambda>u. dist ?p ! u) D = map (\<lambda>u. dist p ! u) D"
      by (rule map_cong) (simp_all add: dD)
    show "sorted (map (\<lambda>u. dist ?p ! u) D)" unfolding eq using mo by (simp add: ordered_def)
  next
    fix x y assume x: "x \<in> set D" and y: "y \<in> set (queue ?p)"
    show "dist ?p ! x \<le> dist ?p ! y"
    proof (cases "y = w")
      case True
      then show ?thesis using dw dD [OF x] Dle [OF x] alt0 by simp
    next
      case False
      then have "y \<in> set (queue p)" using y by (simp add: upd_simps Qset)
      then show ?thesis using mo x dD [OF x] dn [OF False] by (simp add: ordered_def)
    qed
  qed
  have 9: "tree g v0 D ?p"
    unfolding tree_def
  proof (intro conjI allI impI)
    fix x assume x: "x < Order g" "dist ?p ! x = -1"
    then have "x \<noteq> w" using dw alt0 by auto
    then show "parent ?p ! x = -1" using tr x dn pn by (simp add: tree_def)
  next
    fix x assume x: "x < Order g" "dist ?p ! x \<noteq> -1 \<and> x \<noteq> v0"
    show "\<exists>u c. parent ?p ! x = int u \<and> u \<in> set D \<and> (x, c) \<in> set (edges g u) \<and> 0 \<le> c \<and>
                dist ?p ! x = dist ?p ! u + c"
    proof (cases "x = w")
      case True
      have "parent ?p ! x = int ?u \<and> ?u \<in> set D \<and> (x, c) \<in> set (edges g ?u) \<and> 0 \<le> c \<and>
            dist ?p ! x = dist ?p ! ?u + c"
        using True pw uD e dw dD [OF uD] alt by simp
      then show ?thesis by blast
    next
      case False
      then obtain a k where "parent p ! x = int a" "a \<in> set D" "(x, k) \<in> set (edges g a)"
          "0 \<le> k" "dist p ! x = dist p ! a + k"
        using tr x dn [OF False] unfolding tree_def by metis
      then have "parent ?p ! x = int a \<and> a \<in> set D \<and> (x, k) \<in> set (edges g a) \<and> 0 \<le> k \<and>
            dist ?p ! x = dist ?p ! a + k"
        using dn [OF False] pn [OF False] dD [of a] by simp
      then show ?thesis by blast
    qed
  next
    fix i a assume i: "i < length D" "parent ?p ! (D ! i) = int a"
    have "D ! i \<in> set D" using i(1) by simp
    then have "parent p ! (D ! i) = int a" using i(2) pD by simp
    then show "a \<in> set (take i D)" using tr i(1) by (simp add: tree_def)
  qed
  show ?thesis
    unfolding invar_def using 1 2 3 4 5 6 7 8 9 wD by blast
qed

lemma invar_keep:
  assumes I: "invar g v0 D R p"
    and D: "D \<noteq> []" "last D = vtx p"
    and cs: "c < 0 \<or> (dist p ! w \<noteq> -1 \<and> dist p ! w \<le> dist p ! vtx p + c)"
  shows "invar g v0 D (insert (vtx p, w, c) R) p"
proof -
  have uD: "vtx p \<in> set D" using D by (metis last_in_set)
  have "closed (insert (vtx p, w, c) R) p"
    using I cs by (auto simp: invar_def closed_def)
  then show ?thesis using I uD by (auto simp: invar_def)
qed

lemma invar_spent_small:
  assumes "invar g v0 D R p" "no_overflow g"
  shows "spent g D < 2 ^ 63"
proof -
  have "spent g D \<le> total_weight g"
    using assms(1) by (intro spent_le_total) (auto simp: invar_def part_def)
  then show ?thesis using assms(2) by (simp add: no_overflow_def)
qed

lemma Do_mid:
  assumes M: "mid g v0 D R p" and wf: "wf_graph g" and no: "no_overflow g"
    and e: "(w, c) \<in> set (edges g (vtx p))"
  shows "\<exists>p'. Do p w c = Inr (False, p') \<and> mid g v0 D (insert (vtx p, w, c) R) p' \<and>
              (\<forall>x \<in> set D. dist p' ! x = dist p ! x) \<and> length (dist p') = length (dist p)"
proof (cases "c < 0")
  case True
  have "mid g v0 D (insert (vtx p, w, c) R) p"
    using M invar_keep [of g v0 D R p c w] True by (simp add: mid_def)
  then show ?thesis using Do_negative [OF True] by simp
next
  case False
  let ?u = "vtx p"
  let ?alt = "dist p ! ?u + c"
  from M have I: "invar g v0 D R p" and D: "D \<noteq> []" "last D = ?u"
    and room: "dist p ! ?u + out_weight g ?u \<le> spent g D"
    by (simp_all add: mid_def)
  have c0: "0 \<le> c" using False by simp
  have len: "length (dist p) = Order g" "length (parent p) = Order g"
    using I by (simp_all add: invar_def shape_def)
  have uD: "?u \<in> set D" using D by (metis last_in_set)
  have un: "?u < Order g" using I uD by (auto simp: invar_def part_def)
  have wn: "w < Order g" using wf un e by (auto simp: wf_graph_iff)
  have ud: "dist p ! ?u \<noteq> -1" using I uD un by (auto simp: invar_def part_def)
  have u0: "0 \<le> dist p ! ?u" using I un ud by (auto simp: invar_def bounded_def)
  have "c \<le> out_weight g ?u" using e by (rule edge_le_out_weight)
  then have "?alt \<le> spent g D" using room by simp
  then have "?alt < 2 ^ 63" using invar_spent_small [OF I no] by simp
  then have a64: "int64 ?alt = ?alt" using u0 c0 by (intro int64_id) auto
  have Do: "Do p w c = Inr (False,
     (if dist p ! w = -1 then upd p w ?alt (queue p @ [w])
      else if ?alt < dist p ! w then upd p w ?alt (queue p) else p))"
    using Do_relax [OF c0, of p w] un wn len by (simp add: a64)
  show ?thesis
  proof (cases "dist p ! w = -1 \<or> ?alt < dist p ! w")
    case True
    let ?Q = "if dist p ! w = -1 then queue p @ [w] else queue p"
    let ?p = "upd p w ?alt ?Q"
    have cs: "(dist p ! w = -1 \<and> ?Q = queue p @ [w]) \<or>
              (dist p ! w \<noteq> -1 \<and> ?alt < dist p ! w \<and> ?Q = queue p)"
      using True by auto
    have U: "invar g v0 D (insert (?u, w, c) R) ?p \<and> w \<notin> set D"
      by (rule invar_upd [OF I D e c0 wn room refl cs])
    have Dp: "Do p w c = Inr (False, ?p)" using Do True by auto
    have same: "\<forall>x \<in> set D. dist ?p ! x = dist p ! x"
    proof
      fix x assume "x \<in> set D"
      then have "x \<noteq> w" using U by auto
      then show "dist ?p ! x = dist p ! x" by (simp add: upd_simps)
    qed
    have "mid g v0 D (insert (?u, w, c) R) ?p"
      using U D room same uD by (simp add: mid_def upd_simps)
    then show ?thesis using Dp same by (simp add: upd_simps)
  next
    case False
    then have "dist p ! w \<noteq> -1 \<and> dist p ! w \<le> ?alt" by auto
    then have "mid g v0 D (insert (?u, w, c) R) p"
      using M invar_keep [of g v0 D R p c w] by (simp add: mid_def)
    moreover have "Do p w c = Inr (False, p)" using Do False by auto
    ultimately show ?thesis by simp
  qed
qed

lemma visit_mid:
  assumes wf: "wf_graph g" and no: "no_overflow g"
  shows "mid g v0 D R p \<Longrightarrow> set es \<subseteq> set (edges g (vtx p)) \<Longrightarrow>
     \<exists>p'. visit es p = Inr p' \<and> mid g v0 D (R \<union> {vtx p} \<times> set es) p' \<and>
          (\<forall>x \<in> set D. dist p' ! x = dist p ! x)"
proof (induction es arbitrary: R p)
  case Nil
  then show ?case by simp
next
  case (Cons e es)
  obtain w c where e: "e = (w, c)" by (cases e)
  have ein: "(w, c) \<in> set (edges g (vtx p))" using Cons.prems(2) e by simp
  obtain p1 where p1: "Do p w c = Inr (False, p1)" "mid g v0 D (insert (vtx p, w, c) R) p1"
      "\<forall>x \<in> set D. dist p1 ! x = dist p ! x"
    using Do_mid [OF Cons.prems(1) wf no ein] by blast
  have v1: "vtx p1 = vtx p" using p1(2) Cons.prems(1) by (simp add: mid_def)
  have "set es \<subseteq> set (edges g (vtx p1))" using Cons.prems(2) v1 by simp
  from Cons.IH [OF p1(2) this]
  obtain p' where p': "visit es p1 = Inr p'"
      "mid g v0 D (insert (vtx p, w, c) R \<union> {vtx p1} \<times> set es) p'"
      "\<forall>x \<in> set D. dist p' ! x = dist p1 ! x"
    by blast
  have R: "insert (vtx p, w, c) R \<union> {vtx p1} \<times> set es = R \<union> {vtx p} \<times> set (e # es)"
    using v1 e by auto
  have "visit (e # es) p = Inr p'" using p1(1) p'(1) e by simp
  then show ?case using p'(2,3) p1(3) R by auto
qed

section \<open>An iteration of the loop preserves the invariants\<close>

lemma full_snoc: "full g (D @ [u]) = full g D \<union> {u} \<times> set (edges g u)"
  by (auto simp: full_def)

lemma mid_outer:
  "mid g v0 (D @ [u]) (full g D \<union> {u} \<times> set (edges g u)) p \<Longrightarrow> outer g v0 (D @ [u]) p"
  by (auto simp: mid_def outer_def full_snoc)

lemma pop_mid:
  assumes O: "outer g v0 D p" and u: "u \<in> set (queue p)"
    and mn: "\<forall>y \<in> set (queue p). dist p ! u \<le> dist p ! y"
  shows "mid g v0 (D @ [u]) (full g D) (p\<lparr>queue := remove1 u (queue p), vtx := u\<rparr>)"
proof -
  let ?p = "p\<lparr>queue := remove1 u (queue p), vtx := u\<rparr>"
  let ?D = "D @ [u]"
  from O have sh: "shape g p" and sr: "src g v0 p" and pa: "part g D p" and bo: "bounded g D p"
    and so: "sound g v0 p" and cl: "closed (full g D) p"
    and mo: "ordered D p" and tr: "tree g v0 D p"
    by (simp_all add: invar_def outer_def)
  have dq: "distinct (queue p)" using sh by (simp add: shape_def)
  have Qs: "set (queue ?p) = set (queue p) - {u}" using dq by simp
  have un: "u < Order g" using sh u by (simp add: shape_def)
  have uD: "u \<notin> set D" using pa u by (auto simp: part_def)
  have ud: "dist p ! u \<noteq> -1" using pa un u by (simp add: part_def)
  have 1: "shape g ?p" using sh by (auto simp: shape_def dest: notin_set_remove1)
  have 2: "src g v0 ?p" using sr by (simp add: src_def)
  have 3: "part g ?D ?p"
    unfolding part_def
  proof (intro conjI allI impI ballI)
    show "distinct ?D" using pa uD by (simp add: part_def)
  next
    fix x assume "x \<in> set ?D"
    then show "x < Order g" using pa un by (auto simp: part_def)
  next
    fix x assume "x \<in> set ?D"
    then show "x \<notin> set (queue ?p)" using pa unfolding Qs by (auto simp: part_def)
  next
    fix x assume "x < Order g"
    then show "(dist ?p ! x \<noteq> -1) = (x \<in> set ?D \<or> x \<in> set (queue ?p))"
      using pa u unfolding Qs by (auto simp: part_def)
  qed
  have sp: "spent g D \<le> spent g ?D" using out_weight_nonneg [of g u] by (simp add: spent_snoc)
  have 4: "bounded g ?D ?p"
    using bo sp by (fastforce simp: bounded_def)
  have 5: "sound g v0 ?p" using so by (simp add: sound_def)
  have 6: "closed (full g D) ?p" using cl by (simp add: closed_def)
  have 7: "\<forall>(x, y, k) \<in> full g D. x \<in> set ?D" by (auto simp: full_def)
  have 8: "ordered ?D ?p"
    unfolding ordered_def
  proof (intro conjI ballI)
    have "\<forall>x \<in> set D. dist p ! x \<le> dist p ! u" using mo u by (simp add: ordered_def)
    then show "sorted (map (\<lambda>u. dist ?p ! u) ?D)"
      using mo by (simp add: ordered_def sorted_append)
  next
    fix x y assume x: "x \<in> set ?D" and y: "y \<in> set (queue ?p)"
    have y': "y \<in> set (queue p)" using y unfolding Qs by simp
    show "dist ?p ! x \<le> dist ?p ! y"
    proof (cases "x = u")
      case True
      then show ?thesis using mn y' by simp
    next
      case False
      then have "x \<in> set D" using x by simp
      then show ?thesis using mo y' by (simp add: ordered_def)
    qed
  qed
  have 9: "tree g v0 ?D ?p"
    unfolding tree_def
  proof (intro conjI allI impI)
    fix x assume "x < Order g" "dist ?p ! x = -1"
    then show "parent ?p ! x = -1" using tr by (simp add: tree_def)
  next
    fix x assume x: "x < Order g" "dist ?p ! x \<noteq> -1 \<and> x \<noteq> v0"
    then obtain a k where "parent p ! x = int a \<and> a \<in> set D \<and> (x, k) \<in> set (edges g a) \<and>
        0 \<le> k \<and> dist p ! x = dist p ! a + k"
      using tr unfolding tree_def by force
    then have "parent ?p ! x = int a \<and> a \<in> set ?D \<and> (x, k) \<in> set (edges g a) \<and> 0 \<le> k \<and>
        dist ?p ! x = dist ?p ! a + k"
      by simp
    then show "\<exists>a k. parent ?p ! x = int a \<and> a \<in> set ?D \<and> (x, k) \<in> set (edges g a) \<and>
        0 \<le> k \<and> dist ?p ! x = dist ?p ! a + k"
      by blast
  next
    fix i a assume i: "i < length ?D" "parent ?p ! (?D ! i) = int a"
    show "a \<in> set (take i ?D)"
    proof (cases "i < length D")
      case True
      then show ?thesis using tr i(2) by (simp add: tree_def nth_append)
    next
      case False
      then have il: "i = length D" using i(1) by simp
      then have pu: "parent p ! u = int a" using i(2) by simp
      have "u \<noteq> v0" using pu sr by (auto simp: src_def)
      then obtain a' where "parent p ! u = int a'" "a' \<in> set D"
        using tr un ud unfolding tree_def by force
      then show ?thesis using pu il by simp
    qed
  qed
  have I: "invar g v0 ?D (full g D) ?p"
    unfolding invar_def using 1 2 3 4 5 6 7 8 9 by blast
  have "dist p ! u \<le> spent g D" using bo un ud by (simp add: bounded_def)
  then have "dist ?p ! vtx ?p + out_weight g (vtx ?p) \<le> spent g ?D"
    by (simp add: spent_snoc)
  then show ?thesis using I by (simp add: mid_def)
qed

lemma iteration:
  assumes wf: "wf_graph g" and no: "no_overflow g"
    and O: "outer g v0 D p" and q: "queue p \<noteq> []"
  shows "\<exists>u p1 p2. Pop p = Inr (u, p1) \<and> p1 = p\<lparr>queue := remove1 u (queue p)\<rparr> \<and>
           u \<in> set (queue p) \<and> (\<forall>y \<in> set (queue p). dist p ! u \<le> dist p ! y) \<and>
           mid g v0 (D @ [u]) (full g D) (p1\<lparr>vtx := u\<rparr>) \<and>
           Visit g u (p1\<lparr>vtx := u\<rparr>) = Inr p2 \<and> outer g v0 (D @ [u]) p2 \<and>
           (\<forall>x \<in> set (D @ [u]). dist p2 ! x = dist p ! x)"
proof -
  have "\<forall>y \<in> set (queue p). y < length (dist p)"
    using O by (simp add: outer_def invar_def shape_def)
  from Pop_ok [OF q this] obtain u where
    u: "Pop p = Inr (u, p\<lparr>queue := remove1 u (queue p)\<rparr>)" "u \<in> set (queue p)"
       "\<forall>y \<in> set (queue p). dist p ! u \<le> dist p ! y"
    by blast
  let ?p1 = "p\<lparr>queue := remove1 u (queue p)\<rparr>"
  have M: "mid g v0 (D @ [u]) (full g D) (?p1\<lparr>vtx := u\<rparr>)"
    using pop_mid [OF O u(2,3)] by simp
  have "set (edges g u) \<subseteq> set (edges g (vtx (?p1\<lparr>vtx := u\<rparr>)))" by simp
  from visit_mid [OF wf no M this] obtain p2 where
    p2: "visit (edges g u) (?p1\<lparr>vtx := u\<rparr>) = Inr p2"
        "mid g v0 (D @ [u]) (full g D \<union> {u} \<times> set (edges g u)) p2"
        "\<forall>x \<in> set (D @ [u]). dist p2 ! x = dist (?p1\<lparr>vtx := u\<rparr>) ! x"
    by auto
  have "outer g v0 (D @ [u]) p2" using p2(2) by (rule mid_outer)
  moreover have "\<forall>x \<in> set (D @ [u]). dist p2 ! x = dist p ! x" using p2(3) by simp
  ultimately show ?thesis using u M p2(1) by (simp add: Visit_def)
qed

lemma start_outer:
  assumes "v0 < Order g"
  shows "\<exists>p. start g [] v0 = Inr p \<and> outer g v0 [] p"
proof -
  let ?p = "\<lparr>dist = (replicate (Order g) (-1))[v0 := 0],
             parent = replicate (Order g) (-1), queue = [] @ [v0], vtx = 0\<rparr>"
  have s: "start g [] v0 = Inr ?p" by (rule start_valid [OF assms])
  have d: "\<And>w. w < Order g \<Longrightarrow> dist ?p ! w = (if w = v0 then 0 else -1)"
    using assms by (simp add: nth_list_update)
  have 1: "shape g ?p" using assms by (simp add: shape_def)
  have 2: "src g v0 ?p" using assms by (simp add: src_def)
  have 3: "part g [] ?p" using d by (auto simp: part_def)
  have 4: "bounded g [] ?p" using d by (auto simp: bounded_def spent_def)
  have 5: "sound g v0 ?p"
    unfolding sound_def
  proof (intro allI impI)
    fix w assume "w < Order g" "dist ?p ! w \<noteq> -1"
    then have "w = v0" "dist ?p ! w = 0" using d by (auto split: if_splits)
    moreover have "is_path g v0 [] v0" "weight [] = 0" by (simp_all add: weight_Nil)
    ultimately show "\<exists>es. is_path g v0 es w \<and> weight es = dist ?p ! w" by metis
  qed
  have 6: "closed (full g []) ?p" by (simp add: closed_def full_def)
  have 9: "tree g v0 [] ?p" using d by (auto simp: tree_def)
  have "invar g v0 [] (full g []) ?p"
    unfolding invar_def using 1 2 3 4 5 6 9 by (simp add: ordered_def full_def)
  then show ?thesis using s by (simp add: outer_def)
qed

lemma done_length:
  assumes "outer g v0 D p"
  shows "length D \<le> Order g"
proof -
  have d: "distinct D" "set D \<subseteq> {..<Order g}"
    using assms by (auto simp: outer_def invar_def part_def)
  have "length D = card (set D)" using d(1) by (simp add: distinct_card)
  also have "\<dots> \<le> card {..<Order g}" using d(2) by (intro card_mono) auto
  finally show ?thesis by simp
qed

lemma ShortestPaths_loop_total:
  assumes wf: "wf_graph g" and no: "no_overflow g"
  shows "outer g v0 D p \<Longrightarrow>
     \<exists>D' p'. ShortestPaths_loop g p = Some (Inr p') \<and> outer g v0 (D @ D') p' \<and> queue p' = []"
proof (induction "Order g - length D" arbitrary: D p rule: less_induct)
  case less
  show ?case
  proof (cases "queue p = []")
    case True
    have "ShortestPaths_loop g p = Some (Inr p)"
      using True by (subst ShortestPaths_loop.simps) (simp add: Len_def)
    then show ?thesis using less.prems True by (intro exI [of _ "[]"]) simp
  next
    case False
    from iteration [OF wf no less.prems False] obtain u p1 p2 where
      it: "Pop p = Inr (u, p1)" "Visit g u (p1\<lparr>vtx := u\<rparr>) = Inr p2" "outer g v0 (D @ [u]) p2"
      by blast
    have "length (D @ [u]) \<le> Order g" using it(3) by (rule done_length)
    then have "Order g - length (D @ [u]) < Order g - length D" by simp
    from less.hyps [OF this it(3)] obtain D' p' where
      r: "ShortestPaths_loop g p2 = Some (Inr p')" "outer g v0 ((D @ [u]) @ D') p'" "queue p' = []"
      by blast
    have "ShortestPaths_loop g p = Some (Inr p')"
      using False it(1,2) r(1) by (subst ShortestPaths_loop.simps) (simp add: Len_def)
    then show ?thesis using r(2,3) by (intro exI [of _ "u # D'"]) simp
  qed
qed

lemma path_lemma:
  assumes wf: "wf_graph g" and O: "outer g v0 D p"
  shows "is_path g v0 es t \<Longrightarrow>
     (t \<in> set D \<and> dist p ! t \<le> weight es) \<or> (\<exists>y \<in> set (queue p). dist p ! y \<le> weight es)"
proof (induction es arbitrary: t rule: rev_induct)
  case Nil
  then have t: "t = v0" by simp
  have "v0 < Order g" "dist p ! v0 = 0" using O by (simp_all add: outer_def invar_def src_def)
  then have "v0 \<in> set D \<or> v0 \<in> set (queue p)" "dist p ! v0 \<le> weight []"
    using O by (auto simp: outer_def invar_def part_def weight_Nil)
  then show ?case using t by auto
next
  case (snoc e es)
  obtain x c where e: "e = (x, c)" by (cases e)
  from snoc.prems obtain y where
    y: "is_path g v0 es y" "(t, c) \<in> set (edges g y)" "0 \<le> c" "x = t"
    unfolding e is_path_snoc by blast
  have w: "weight (es @ [e]) = weight es + c" by (simp add: e weight_snoc)
  from snoc.IH [OF y(1)] show ?case
  proof
    assume a: "y \<in> set D \<and> dist p ! y \<le> weight es"
    then have yn: "y < Order g" using O by (auto simp: outer_def invar_def part_def)
    then have tn: "t < Order g" using wf y(2) by (auto simp: wf_graph_iff)
    have "(y, t, c) \<in> full g D" using a y(2) by (simp add: full_def)
    then have d: "dist p ! t \<noteq> -1" "dist p ! t \<le> dist p ! y + c"
      using O y(3) by (auto simp: outer_def invar_def closed_def)
    then have "t \<in> set D \<or> t \<in> set (queue p)"
      using O tn by (auto simp: outer_def invar_def part_def)
    moreover have "dist p ! t \<le> weight (es @ [e])" using d(2) a w by simp
    ultimately show ?thesis by blast
  next
    assume "\<exists>y \<in> set (queue p). dist p ! y \<le> weight es"
    then obtain z where "z \<in> set (queue p)" "dist p ! z \<le> weight es" by blast
    then have "z \<in> set (queue p) \<and> dist p ! z \<le> weight (es @ [e])" using w y(3) by simp
    then show ?thesis by blast
  qed
qed

section \<open>All destinations: \<^verbatim>\<open>ShortestPaths\<close>\<close>

lemma ShortestPaths_result:
  assumes wf: "wf_graph g" and no: "no_overflow g" and v: "v < Order g"
  shows "\<exists>D p. ShortestPaths g v = Some (Inr (parent p, dist p)) \<and> outer g v D p \<and> queue p = []"
proof -
  obtain p0 where p0: "start g [] v = Inr p0" "outer g v [] p0"
    using start_outer [OF v] by blast
  obtain D p where p: "ShortestPaths_loop g p0 = Some (Inr p)" "outer g v ([] @ D) p" "queue p = []"
    using ShortestPaths_loop_total [OF wf no p0(2)] by blast
  have "ShortestPaths g v = Some (Inr (parent p, dist p))"
    by (simp add: ShortestPaths_def p0(1) p(1))
  then show ?thesis using p(2,3) by auto
qed

lemma outer_final_optimal:
  assumes wf: "wf_graph g" and O: "outer g v D p" and q: "queue p = []"
    and w: "w < Order g"
  shows "(dist p ! w \<noteq> -1 \<longrightarrow> (\<exists>es. is_path g v es w \<and> weight es = dist p ! w)) \<and>
         (\<forall>es. is_path g v es w \<longrightarrow> dist p ! w \<noteq> -1 \<and> dist p ! w \<le> weight es)"
proof (intro conjI allI impI)
  assume "dist p ! w \<noteq> -1"
  then show "\<exists>es. is_path g v es w \<and> weight es = dist p ! w"
    using O w by (simp add: outer_def invar_def sound_def)
next
  fix es assume es: "is_path g v es w"
  have a: "w \<in> set D \<and> dist p ! w \<le> weight es"
    using path_lemma [OF wf O es] q by simp
  then show "dist p ! w \<noteq> -1" using O w by (auto simp: outer_def invar_def part_def)
  show "dist p ! w \<le> weight es" using a by simp
qed

text \<open>
  C1 (as amended). For every well-formed traversal source whose non-negative edge costs
  sum to less than \<open>2 ^ 63\<close> and every source \<open>v\<close> below \<open>Order g\<close>, \<open>ShortestPaths g v\<close>
  returns, and for every vertex \<open>w\<close> with \<open>dist ! w \<noteq> -1\<close> the entry \<open>dist ! w\<close> is the
  weight of a path from \<open>v\<close> to \<open>w\<close> over edges of non-negative cost, and no such path
  has a smaller weight.
\<close>

theorem ShortestPaths_optimal:
  assumes "wf_graph g" and "no_overflow g" and "v < Order g"
  shows "\<exists>ps ds. ShortestPaths g v = Some (Inr (ps, ds)) \<and> length ds = Order g \<and>
           (\<forall>w < Order g. ds ! w \<noteq> -1 \<longrightarrow>
              (\<exists>es. is_path g v es w \<and> weight es = ds ! w) \<and>
              (\<forall>es. is_path g v es w \<longrightarrow> ds ! w \<le> weight es))"
proof -
  obtain D p where p: "ShortestPaths g v = Some (Inr (parent p, dist p))" "outer g v D p"
      "queue p = []"
    using ShortestPaths_result [OF assms] by blast
  have "length (dist p) = Order g" using p(2) by (simp add: outer_def invar_def shape_def)
  moreover have "\<forall>w < Order g. dist p ! w \<noteq> -1 \<longrightarrow>
              (\<exists>es. is_path g v es w \<and> weight es = dist p ! w) \<and>
              (\<forall>es. is_path g v es w \<longrightarrow> dist p ! w \<le> weight es)"
    using outer_final_optimal [OF assms(1) p(2,3)] by blast
  ultimately show ?thesis using p(1) by blast
qed

lemma wf_g2: "wf_graph g2" by (simp add: wf_graph_def g2_def numeral_2_eq_2)

lemma no_g2: "no_overflow g2"
  by (simp add: no_overflow_def total_weight_def out_weight_def g2_def numeral_2_eq_2)

theorem ShortestPaths_optimal_witness:
  "wf_graph g2 \<and> no_overflow g2 \<and> (0::nat) < Order g2 \<and>
   (\<exists>ps ds. ShortestPaths g2 0 = Some (Inr (ps, ds)) \<and> length ds = Order g2 \<and>
           (\<forall>w < Order g2. ds ! w \<noteq> -1 \<longrightarrow>
              (\<exists>es. is_path g2 0 es w \<and> weight es = ds ! w) \<and>
              (\<forall>es. is_path g2 0 es w \<longrightarrow> ds ! w \<le> weight es)))"
proof -
  have v: "(0::nat) < Order g2" by (simp add: g2_def)
  show ?thesis using ShortestPaths_optimal [OF wf_g2 no_g2 v] wf_g2 no_g2 v by blast
qed

lemmas run_simps = ShortestPath_def ShortestPathWithQueue_def shortestPathWithQueue_def
  ShortestPaths_def start_def SetDist_def Push_def Fix_def Pop_def Len_def Do_def Visit_def
  Let_def int64_def ShortestPaths_loop.simps shortestPathWithQueue_loop.simps collect.simps
  numeral_3_eq_3 numeral_2_eq_2

lemma ShortestPaths_g_ovf:
  "ShortestPaths g_ovf 0 = Some (Inr ([-1, 0, 1], [0, 2 ^ 62, - (2 ^ 63)]))"
  by (simp add: g_ovf_def run_simps)

text \<open>
  Without the bound on the costs the claim fails: on \<open>g_ovf\<close> the sum
  \<open>2 ^ 62 + 2 ^ 62\<close> wraps around to \<open>- (2 ^ 63)\<close>, which is the weight of no path.
\<close>

theorem ShortestPaths_overflow_counterexample:
  "wf_graph g_ovf \<and> int64_costs g_ovf \<and>
   ShortestPaths g_ovf 0 = Some (Inr ([-1, 0, 1], [0, 2 ^ 62, - (2 ^ 63)])) \<and>
   [0, 2 ^ 62, - (2 ^ 63)] ! 2 \<noteq> (-1::int) \<and>
   \<not> (\<exists>es. is_path g_ovf 0 es 2 \<and> weight es = [0, 2 ^ 62, - (2 ^ 63)] ! 2)"
proof -
  have "\<And>es. is_path g_ovf 0 es 2 \<Longrightarrow> weight es \<noteq> - (2 ^ 63)"
    using is_path_weight_nonneg [of g_ovf 0 _ 2] by fastforce
  moreover have "wf_graph g_ovf" by (simp add: wf_graph_def g_ovf_def numeral_3_eq_3)
  moreover have "int64_costs g_ovf" by (simp add: int64_costs_def g_ovf_def numeral_3_eq_3)
  ultimately show ?thesis using ShortestPaths_g_ovf by auto
qed

section \<open>Runs\<close>

lemma start_range: "start g q0 v = Inr p \<Longrightarrow> v < Order g"
  by (simp add: start_def SetDist_def Push_def split: if_splits)

lemma run_start: "run g v D es p \<Longrightarrow> \<exists>p0. start g [] v = Inr p0"
  by (induction rule: run.induct) auto

lemma run_rest:
  assumes "run g v D es p" "start g [] v = Inr p0"
  shows "rest g es p = ShortestPaths_loop g p0"
  using assms
proof (induction rule: run.induct)
  case (init p)
  then show ?case by (simp add: rest_def)
next
  case (pop D p u p1)
  have "ShortestPaths_loop g p = rest g (edges g u) (p1\<lparr>vtx := u\<rparr>)"
    using pop.hyps(2,3) by (subst ShortestPaths_loop.simps) (simp add: rest_def Visit_def)
  then show ?case using pop.IH [OF pop.prems] by (simp add: rest_def)
next
  case (relax D w d es p skip p')
  have "rest g ((w, d) # es) p = rest g (if skip then [] else es) p'"
    using relax.hyps(2) by (simp add: rest_def)
  then show ?case using relax.IH [OF relax.prems] by simp
qed

lemma run_final_result:
  assumes "run g v D [] p" "Len p = 0"
  shows "ShortestPaths g v = Some (Inr (parent p, dist p))"
proof -
  obtain p0 where p0: "start g [] v = Inr p0" using run_start [OF assms(1)] by blast
  have "ShortestPaths_loop g p = Some (Inr p)"
    using assms(2) by (subst ShortestPaths_loop.simps) simp
  then have "ShortestPaths_loop g p0 = Some (Inr p)"
    using run_rest [OF assms(1) p0] by (simp add: rest_def)
  then show ?thesis by (simp add: ShortestPaths_def p0)
qed

lemma run_visit: "run g v D es p \<Longrightarrow> visit es p = Inr p' \<Longrightarrow> run g v D [] p'"
proof (induction es arbitrary: p)
  case Nil
  then show ?case by simp
next
  case (Cons e es)
  obtain w d where e: "e = (w, d)" by (cases e)
  obtain skip p1 where d: "Do p w d = Inr (skip, p1)"
    using Cons.prems(2) e by (cases "Do p w d") (auto split: prod.splits)
  have r: "run g v D (if skip then [] else es) p1"
    using run.relax [of g v D w d es p skip p1] Cons.prems(1) d e by simp
  show ?case
  proof (cases skip)
    case True
    then show ?thesis using r Cons.prems(2) e d by simp
  next
    case False
    then have "visit es p1 = Inr p'" using Cons.prems(2) e d by simp
    then show ?thesis using Cons.IH [of p1] r False by simp
  qed
qed

lemma run_invariant:
  assumes wf: "wf_graph g" and no: "no_overflow g"
  shows "run g v D es p \<Longrightarrow>
     (es = [] \<and> outer g v D p) \<or>
     (\<exists>es1. mid g v D (full g (butlast D) \<union> {vtx p} \<times> set es1) p \<and> edges g (vtx p) = es1 @ es)"
proof (induction rule: run.induct)
  case (init p)
  then show ?case using start_outer [OF start_range [OF init]] by auto
next
  case (pop D p u p1)
  have O: "outer g v D p"
  proof -
    { fix es1
      assume m: "mid g v D (full g (butlast D) \<union> {vtx p} \<times> set es1) p"
        and e: "edges g (vtx p) = es1 @ []"
      have "D = butlast D @ [vtx p]" using m by (simp add: mid_def) (metis append_butlast_last_id)
      then have "outer g v D p"
        using mid_outer [of g v "butlast D" "vtx p" p] m e by simp }
    then show ?thesis using pop.IH by blast
  qed
  have q: "queue p \<noteq> []" using pop.hyps(2) by (auto simp: Len_def)
  from iteration [OF wf no O q] obtain u' p1' where
    "Pop p = Inr (u', p1')" "mid g v (D @ [u']) (full g D) (p1'\<lparr>vtx := u'\<rparr>)"
    by blast
  then have "mid g v (D @ [u]) (full g D) (p1\<lparr>vtx := u\<rparr>)" using pop.hyps(3) by simp
  then have "mid g v (D @ [u]) (full g (butlast (D @ [u])) \<union> {vtx (p1\<lparr>vtx := u\<rparr>)} \<times> set [])
      (p1\<lparr>vtx := u\<rparr>) \<and> edges g (vtx (p1\<lparr>vtx := u\<rparr>)) = [] @ edges g u"
    by simp
  then show ?case by blast
next
  case (relax D w d es p skip p')
  from relax.IH obtain es1 where
    m: "mid g v D (full g (butlast D) \<union> {vtx p} \<times> set es1) p"
    and e: "edges g (vtx p) = es1 @ (w, d) # es"
    by auto
  have ein: "(w, d) \<in> set (edges g (vtx p))" using e by simp
  from Do_mid [OF m wf no ein] obtain p'' where
    d: "Do p w d = Inr (False, p'')"
       "mid g v D (insert (vtx p, w, d) (full g (butlast D) \<union> {vtx p} \<times> set es1)) p''"
    by blast
  have sk: "skip = False" "p' = p''" using d(1) relax.hyps(2) by simp_all
  have vt: "vtx p' = vtx p" using d(2) m sk by (simp add: mid_def)
  have "insert (vtx p, w, d) (full g (butlast D) \<union> {vtx p} \<times> set es1) =
        full g (butlast D) \<union> {vtx p'} \<times> set (es1 @ [(w, d)])"
    using vt by auto
  then have "mid g v D (full g (butlast D) \<union> {vtx p'} \<times> set (es1 @ [(w, d)])) p' \<and>
      edges g (vtx p') = (es1 @ [(w, d)]) @ es"
    using d(2) sk vt e by simp
  then show ?case using sk by auto
qed

lemma run_head_outer:
  assumes wf: "wf_graph g" and no: "no_overflow g" and r: "run g v D [] p"
  shows "outer g v D p"
proof -
  { fix es1
    assume m: "mid g v D (full g (butlast D) \<union> {vtx p} \<times> set es1) p"
      and e: "edges g (vtx p) = es1 @ []"
    have "D = butlast D @ [vtx p]" using m by (simp add: mid_def) (metis append_butlast_last_id)
    then have "outer g v D p"
      using mid_outer [of g v "butlast D" "vtx p" p] m e by simp }
  then show ?thesis using run_invariant [OF wf no r] by blast
qed

lemma run_reaches_end:
  assumes wf: "wf_graph g" and no: "no_overflow g"
  shows "run g v D [] p \<Longrightarrow> \<exists>D' p'. run g v (D @ D') [] p' \<and> Len p' = 0"
proof (induction "Order g - length D" arbitrary: D p rule: less_induct)
  case less
  have O: "outer g v D p" using run_head_outer [OF wf no less.prems] .
  show ?case
  proof (cases "queue p = []")
    case True
    then show ?thesis using less.prems by (intro exI [of _ "[]"]) (auto simp: Len_def)
  next
    case False
    from iteration [OF wf no O False] obtain u p1 p2 where
      it: "Pop p = Inr (u, p1)" "Visit g u (p1\<lparr>vtx := u\<rparr>) = Inr p2" "outer g v (D @ [u]) p2"
      by blast
    have "run g v (D @ [u]) (edges g u) (p1\<lparr>vtx := u\<rparr>)"
      using run.pop [OF less.prems _ it(1)] False by (simp add: Len_def)
    then have r2: "run g v (D @ [u]) [] p2" using run_visit it(2) by (simp add: Visit_def)
    have "length (D @ [u]) \<le> Order g" using it(3) by (rule done_length)
    then have "Order g - length (D @ [u]) < Order g - length D" by simp
    from less.hyps [OF this r2] obtain D' p' where
      "run g v ((D @ [u]) @ D') [] p'" "Len p' = 0"
      by blast
    then have "run g v (D @ (u # D')) [] p' \<and> Len p' = 0" by simp
    then show ?thesis by blast
  qed
qed

lemma run_iteration:
  assumes "run g v D [] p" "0 < Len p" "Pop p = Inr (u, p1)"
    "visit (edges g u) (p1\<lparr>vtx := u\<rparr>) = Inr p2"
  shows "run g v (D @ [u]) [] p2"
  using run_visit [OF run.pop [OF assms(1,2,3)] assms(4)] .

lemmas step_simps = start_def SetDist_def Push_def Fix_def Pop_def Len_def Do_def Let_def int64_def

section \<open>Finalized vertices\<close>

text \<open>
  C3 (as amended). In a run of \<open>ShortestPaths\<close> on a well-formed traversal source whose
  non-negative edge costs sum to less than \<open>2 ^ 63\<close>, every call of \<open>Do\<close> returns and
  leaves the \<open>dist\<close> entry of every vertex popped before the call as it is.
\<close>

theorem popped_dist_unchanged:
  assumes "wf_graph g" and "no_overflow g" and "run g v D ((w, d) # es) p"
  shows "\<exists>p'. Do p w d = Inr (False, p') \<and> (\<forall>x \<in> set D. dist p' ! x = dist p ! x)"
proof -
  from run_invariant [OF assms] obtain es1 where
    m: "mid g v D (full g (butlast D) \<union> {vtx p} \<times> set es1) p"
    and e: "edges g (vtx p) = es1 @ (w, d) # es"
    by auto
  have "(w, d) \<in> set (edges g (vtx p))" using e by simp
  from Do_mid [OF m assms(1,2) this] show ?thesis by blast
qed

lemma run_g2_0: "run g2 0 [] [] \<lparr>dist = [0, -1], parent = [-1, -1], queue = [0], vtx = 0\<rparr>"
  by (rule run.init) (simp add: g2_def step_simps numeral_2_eq_2)

lemma run_g2_1: "run g2 0 [0] [(1, 5)] \<lparr>dist = [0, -1], parent = [-1, -1], queue = [], vtx = 0\<rparr>"
  using run.pop [OF run_g2_0, of 0 "\<lparr>dist = [0, -1], parent = [-1, -1], queue = [], vtx = 0\<rparr>"]
  by (simp add: g2_def step_simps)

lemma run_g2_2: "run g2 0 [0] [] \<lparr>dist = [0, 5], parent = [-1, 0], queue = [1], vtx = 0\<rparr>"
  using run.relax [OF run_g2_1, of False "\<lparr>dist = [0, 5], parent = [-1, 0], queue = [1], vtx = 0\<rparr>"]
  by (simp add: step_simps)

lemma run_g2_3: "run g2 0 [0, 1] [] \<lparr>dist = [0, 5], parent = [-1, 0], queue = [], vtx = 1\<rparr>"
  using run.pop [OF run_g2_2, of 1 "\<lparr>dist = [0, 5], parent = [-1, 0], queue = [], vtx = 0\<rparr>"]
  by (simp add: g2_def step_simps)

theorem popped_dist_unchanged_witness:
  "wf_graph g2 \<and> no_overflow g2 \<and>
   run g2 0 [0] [(1, 5)] \<lparr>dist = [0, -1], parent = [-1, -1], queue = [], vtx = 0\<rparr> \<and>
   (\<exists>p'. Do \<lparr>dist = [0, -1], parent = [-1, -1], queue = [], vtx = 0\<rparr> 1 5 = Inr (False, p') \<and>
         dist p' ! 0 = [0, -1] ! 0)"
  using popped_dist_unchanged [OF wf_g2 no_g2 run_g2_1] wf_g2 no_g2 run_g2_1 by simp

text \<open>
  Without the bound on the costs the claim fails: on \<open>g_m1\<close> the vertex 3 is pushed and
  popped with the wrapped distance \<open>-1\<close>, and the relaxation of its own edge, which takes
  \<open>-1\<close> for "not reached", pushes it again with distance 0.
\<close>

lemma run_g_m1_0:
  "run g_m1 0 [] [] \<lparr>dist = [0, -1, -1, -1], parent = [-1, -1, -1, -1], queue = [0], vtx = 0\<rparr>"
  by (rule run.init) (simp add: g_m1_def step_simps numeral_eq_Suc)

lemma run_g_m1_1:
  "run g_m1 0 [0] []
     \<lparr>dist = [0, 2 ^ 63 - 1, -1, -1], parent = [-1, 0, -1, -1], queue = [1], vtx = 0\<rparr>"
  using run_iteration [OF run_g_m1_0, of 0
      "\<lparr>dist = [0, -1, -1, -1], parent = [-1, -1, -1, -1], queue = [], vtx = 0\<rparr>"
      "\<lparr>dist = [0, 2 ^ 63 - 1, -1, -1], parent = [-1, 0, -1, -1], queue = [1], vtx = 0\<rparr>"]
  by (simp add: g_m1_def step_simps)

lemma run_g_m1_2:
  "run g_m1 0 [0, 1] []
     \<lparr>dist = [0, 2 ^ 63 - 1, -2, -1], parent = [-1, 0, 1, -1], queue = [2], vtx = 1\<rparr>"
  using run_iteration [OF run_g_m1_1, of 1
      "\<lparr>dist = [0, 2 ^ 63 - 1, -1, -1], parent = [-1, 0, -1, -1], queue = [], vtx = 0\<rparr>"
      "\<lparr>dist = [0, 2 ^ 63 - 1, -2, -1], parent = [-1, 0, 1, -1], queue = [2], vtx = 1\<rparr>"]
  by (simp add: g_m1_def step_simps)

lemma run_g_m1_3:
  "run g_m1 0 [0, 1, 2] []
     \<lparr>dist = [0, 2 ^ 63 - 1, -2, -1], parent = [-1, 0, 1, 2], queue = [3], vtx = 2\<rparr>"
  using run_iteration [OF run_g_m1_2, of 2
      "\<lparr>dist = [0, 2 ^ 63 - 1, -2, -1], parent = [-1, 0, 1, -1], queue = [], vtx = 1\<rparr>"
      "\<lparr>dist = [0, 2 ^ 63 - 1, -2, -1], parent = [-1, 0, 1, 2], queue = [3], vtx = 2\<rparr>"]
  by (simp add: g_m1_def step_simps)

lemma run_g_m1_4:
  "run g_m1 0 [0, 1, 2, 3] [(3, 1)]
     \<lparr>dist = [0, 2 ^ 63 - 1, -2, -1], parent = [-1, 0, 1, 2], queue = [], vtx = 3\<rparr>"
  using run.pop [OF run_g_m1_3, of 3
      "\<lparr>dist = [0, 2 ^ 63 - 1, -2, -1], parent = [-1, 0, 1, 2], queue = [], vtx = 2\<rparr>"]
  by (simp add: g_m1_def step_simps)

lemma wf_g_m1: "wf_graph g_m1" by (simp add: wf_graph_def g_m1_def numeral_eq_Suc)

lemma int64_costs_g_m1: "int64_costs g_m1" by (simp add: int64_costs_def g_m1_def numeral_eq_Suc)

theorem popped_dist_overflow_counterexample:
  "wf_graph g_m1 \<and> int64_costs g_m1 \<and>
   run g_m1 0 [0, 1, 2, 3] [(3, 1)]
     \<lparr>dist = [0, 2 ^ 63 - 1, -2, -1], parent = [-1, 0, 1, 2], queue = [], vtx = 3\<rparr> \<and>
   (3::nat) \<in> set [0, 1, 2, 3] \<and>
   Do \<lparr>dist = [0, 2 ^ 63 - 1, -2, -1], parent = [-1, 0, 1, 2], queue = [], vtx = 3\<rparr> 3 1 =
     Inr (False, \<lparr>dist = [0, 2 ^ 63 - 1, -2, 0], parent = [-1, 0, 1, 3], queue = [3], vtx = 3\<rparr>) \<and>
   [0, 2 ^ 63 - 1, -2, 0] ! 3 \<noteq> [0, 2 ^ 63 - 1, -2, (-1::int)] ! 3"
  using wf_g_m1 int64_costs_g_m1 run_g_m1_4 by (simp add: step_simps)

section \<open>The order of the pops\<close>

text \<open>
  C8 (as amended). On a well-formed traversal source whose non-negative edge costs sum to
  less than \<open>2 ^ 63\<close>, the run of \<open>ShortestPaths g v\<close> reaches the end of its loop, and
  whenever it does so after popping the vertices \<open>D\<close>, in this order, the search returns
  the slices of that state and the returned distances are non-decreasing along \<open>D\<close>.
\<close>

theorem pops_nondecreasing:
  assumes "wf_graph g" and "no_overflow g" and "v < Order g"
  shows "(\<exists>D p. run g v D [] p \<and> Len p = 0) \<and>
         (\<forall>D p. run g v D [] p \<and> Len p = 0 \<longrightarrow>
            ShortestPaths g v = Some (Inr (parent p, dist p)) \<and>
            sorted (map (\<lambda>u. dist p ! u) D))"
proof (intro conjI allI impI)
  obtain p0 where p0: "start g [] v = Inr p0" using start_outer [OF assms(3)] by blast
  have "run g v [] [] p0" using p0 by (rule run.init)
  from run_reaches_end [OF assms(1,2) this] show "\<exists>D p. run g v D [] p \<and> Len p = 0" by auto
next
  fix D p assume r: "run g v D [] p \<and> Len p = 0"
  then show "ShortestPaths g v = Some (Inr (parent p, dist p))"
    using run_final_result by blast
  have "outer g v D p" using run_head_outer [OF assms(1,2)] r by blast
  then show "sorted (map (\<lambda>u. dist p ! u) D)" by (simp add: outer_def invar_def ordered_def)
qed

theorem pops_nondecreasing_witness:
  "wf_graph g2 \<and> no_overflow g2 \<and> (0::nat) < Order g2 \<and>
   run g2 0 [0, 1] [] \<lparr>dist = [0, 5], parent = [-1, 0], queue = [], vtx = 1\<rparr> \<and>
   Len \<lparr>dist = [0, 5], parent = [-1, 0], queue = [], vtx = 1\<rparr> = 0 \<and>
   ShortestPaths g2 0 = Some (Inr ([-1, 0], [0, 5])) \<and>
   sorted (map (\<lambda>u. [0, 5::int] ! u) [0, 1])"
proof -
  have v: "(0::nat) < Order g2" by (simp add: g2_def)
  have l: "Len \<lparr>dist = [0, 5], parent = [-1, 0], queue = [], vtx = 1\<rparr> = 0" by (simp add: Len_def)
  show ?thesis
    using pops_nondecreasing [OF wf_g2 no_g2 v] wf_g2 no_g2 v run_g2_3 l by fastforce
qed

text \<open>
  Without the bound on the costs the claim fails: on \<open>g_ovf\<close> the vertices are popped in
  the order 0, 1, 2 and the returned distances are \<open>0\<close>, \<open>2 ^ 62\<close> and \<open>- (2 ^ 63)\<close>.
\<close>

lemma run_g_ovf_0:
  "run g_ovf 0 [] [] \<lparr>dist = [0, -1, -1], parent = [-1, -1, -1], queue = [0], vtx = 0\<rparr>"
  by (rule run.init) (simp add: g_ovf_def step_simps numeral_eq_Suc)

lemma run_g_ovf_1:
  "run g_ovf 0 [0] [] \<lparr>dist = [0, 2 ^ 62, -1], parent = [-1, 0, -1], queue = [1], vtx = 0\<rparr>"
  using run_iteration [OF run_g_ovf_0, of 0
      "\<lparr>dist = [0, -1, -1], parent = [-1, -1, -1], queue = [], vtx = 0\<rparr>"
      "\<lparr>dist = [0, 2 ^ 62, -1], parent = [-1, 0, -1], queue = [1], vtx = 0\<rparr>"]
  by (simp add: g_ovf_def step_simps)

lemma run_g_ovf_2:
  "run g_ovf 0 [0, 1] []
     \<lparr>dist = [0, 2 ^ 62, - (2 ^ 63)], parent = [-1, 0, 1], queue = [2], vtx = 1\<rparr>"
  using run_iteration [OF run_g_ovf_1, of 1
      "\<lparr>dist = [0, 2 ^ 62, -1], parent = [-1, 0, -1], queue = [], vtx = 0\<rparr>"
      "\<lparr>dist = [0, 2 ^ 62, - (2 ^ 63)], parent = [-1, 0, 1], queue = [2], vtx = 1\<rparr>"]
  by (simp add: g_ovf_def step_simps)

lemma run_g_ovf_3:
  "run g_ovf 0 [0, 1, 2] []
     \<lparr>dist = [0, 2 ^ 62, - (2 ^ 63)], parent = [-1, 0, 1], queue = [], vtx = 2\<rparr>"
  using run_iteration [OF run_g_ovf_2, of 2
      "\<lparr>dist = [0, 2 ^ 62, - (2 ^ 63)], parent = [-1, 0, 1], queue = [], vtx = 1\<rparr>"
      "\<lparr>dist = [0, 2 ^ 62, - (2 ^ 63)], parent = [-1, 0, 1], queue = [], vtx = 2\<rparr>"]
  by (simp add: g_ovf_def step_simps)

lemma wf_g_ovf: "wf_graph g_ovf" by (simp add: wf_graph_def g_ovf_def numeral_eq_Suc)

lemma int64_costs_g_ovf: "int64_costs g_ovf"
  by (simp add: int64_costs_def g_ovf_def numeral_eq_Suc)

theorem pops_overflow_counterexample:
  "wf_graph g_ovf \<and> int64_costs g_ovf \<and>
   run g_ovf 0 [0, 1, 2] []
     \<lparr>dist = [0, 2 ^ 62, - (2 ^ 63)], parent = [-1, 0, 1], queue = [], vtx = 2\<rparr> \<and>
   Len \<lparr>dist = [0, 2 ^ 62, - (2 ^ 63)], parent = [-1, 0, 1], queue = [], vtx = 2\<rparr> = 0 \<and>
   ShortestPaths g_ovf 0 = Some (Inr ([-1, 0, 1], [0, 2 ^ 62, - (2 ^ 63)])) \<and>
   \<not> sorted (map (\<lambda>u. [0, 2 ^ 62, - (2 ^ 63) :: int] ! u) [0, 1, 2])"
  using wf_g_ovf int64_costs_g_ovf run_g_ovf_3 ShortestPaths_g_ovf by (simp add: Len_def)

section \<open>Single target: \<^verbatim>\<open>shortestPathWithQueue\<close>\<close>

lemma invar_vtx: "invar g v0 D R (p\<lparr>vtx := x\<rparr>) = invar g v0 D R p"
  by (simp add: invar_def shape_def src_def part_def bounded_def sound_def closed_def
      ordered_def tree_def)

lemma Pop_fields:
  "Pop p = Inr (u, p1) \<Longrightarrow>
     dist p1 = dist p \<and> parent p1 = parent p \<and> queue p1 = remove1 u (queue p) \<and> vtx p1 = vtx p"
  by (auto simp: Pop_def Let_def split: list.splits if_splits)

lemma target_popped:
  assumes wf: "wf_graph g" and O: "outer g v0 D p" and w: "w \<in> set (queue p)"
    and mn: "\<forall>y \<in> set (queue p). dist p ! w \<le> dist p ! y"
  shows "target_done g v0 w (p\<lparr>queue := remove1 w (queue p)\<rparr>)"
proof -
  let ?p = "p\<lparr>queue := remove1 w (queue p)\<rparr>"
  have "mid g v0 (D @ [w]) (full g D) (?p\<lparr>vtx := w\<rparr>)" using pop_mid [OF O w mn] by simp
  then have I: "invar g v0 (D @ [w]) (full g D) ?p" by (simp add: mid_def invar_vtx)
  have wn: "w < Order g" and wD: "w \<notin> set D"
    using O w by (auto simp: outer_def invar_def shape_def part_def)
  have wd: "dist p ! w \<noteq> -1" using O w wn by (auto simp: outer_def invar_def part_def)
  have opt: "\<forall>es. is_path g v0 es w \<longrightarrow> dist ?p ! w \<noteq> -1 \<and> dist ?p ! w \<le> weight es"
  proof (intro allI impI)
    fix es assume "is_path g v0 es w"
    from path_lemma [OF wf O this] wD obtain y where
      "y \<in> set (queue p)" "dist p ! y \<le> weight es"
      by blast
    then have "dist p ! w \<le> weight es" using mn by force
    then show "dist ?p ! w \<noteq> -1 \<and> dist ?p ! w \<le> weight es" using wd by simp
  qed
  have "\<exists>D R. invar g v0 D R ?p \<and> (dist ?p ! w \<noteq> -1 \<longrightarrow> w \<in> set D)"
    using I by (intro exI [of _ "D @ [w]"] exI [of _ "full g D"]) simp
  then show ?thesis using opt unfolding target_done_def by blast
qed

lemma target_missed:
  assumes wf: "wf_graph g" and O: "outer g v0 D p" and q: "queue p = []"
    and w: "w \<notin> set D" "w < Order g"
  shows "target_done g v0 w p \<and> dist p ! w = -1"
proof -
  have wd: "dist p ! w = -1" using O q w by (auto simp: outer_def invar_def part_def)
  have "\<And>es. is_path g v0 es w \<Longrightarrow> False"
    using path_lemma [OF wf O] q w(1) by fastforce
  then have "\<forall>es. is_path g v0 es w \<longrightarrow> dist p ! w \<noteq> -1 \<and> dist p ! w \<le> weight es" by blast
  moreover have "\<exists>D R. invar g v0 D R p \<and> (dist p ! w \<noteq> -1 \<longrightarrow> w \<in> set D)"
    using O wd unfolding outer_def by blast
  ultimately show ?thesis using wd unfolding target_done_def by blast
qed

lemma target_loop_total:
  assumes wf: "wf_graph g" and no: "no_overflow g" and w: "w < Order g"
  shows "outer g v0 D p \<Longrightarrow> w \<notin> set D \<Longrightarrow>
     \<exists>p'. shortestPathWithQueue_loop g w p = Some (Inr p') \<and> target_done g v0 w p'"
proof (induction "Order g - length D" arbitrary: D p rule: less_induct)
  case less
  show ?case
  proof (cases "queue p = []")
    case True
    have "shortestPathWithQueue_loop g w p = Some (Inr p)"
      using True by (subst shortestPathWithQueue_loop.simps) (simp add: Len_def)
    then show ?thesis using target_missed [OF wf less.prems(1) True less.prems(2) w] by blast
  next
    case False
    from iteration [OF wf no less.prems(1) False] obtain u p1 p2 where
      it: "Pop p = Inr (u, p1)" "p1 = p\<lparr>queue := remove1 u (queue p)\<rparr>" "u \<in> set (queue p)"
        "\<forall>y \<in> set (queue p). dist p ! u \<le> dist p ! y"
        "Visit g u (p1\<lparr>vtx := u\<rparr>) = Inr p2" "outer g v0 (D @ [u]) p2"
      by blast
    show ?thesis
    proof (cases "u = w")
      case True
      have "shortestPathWithQueue_loop g w p = Some (Inr p1)"
        using False it(1) True by (subst shortestPathWithQueue_loop.simps) (simp add: Len_def)
      moreover have "target_done g v0 w p1"
        using target_popped [OF wf less.prems(1)] it(2,3,4) True by simp
      ultimately show ?thesis by blast
    next
      case ne: False
      have "length (D @ [u]) \<le> Order g" using it(6) by (rule done_length)
      then have m: "Order g - length (D @ [u]) < Order g - length D" by simp
      have "w \<notin> set (D @ [u])" using less.prems(2) ne by simp
      from less.hyps [OF m it(6) this] obtain p' where
        r: "shortestPathWithQueue_loop g w p2 = Some (Inr p')" "target_done g v0 w p'"
        by blast
      have "shortestPathWithQueue_loop g w p = Some (Inr p')"
        using False it(1,5) ne r(1)
        by (subst shortestPathWithQueue_loop.simps) (simp add: Len_def)
      then show ?thesis using r(2) by blast
    qed
  qed
qed

lemma shortestPathWithQueue_result:
  assumes wf: "wf_graph g" and no: "no_overflow g" and v: "v < Order g" and w: "w < Order g"
  shows "\<exists>p. shortestPathWithQueue g [] v w = Some (Inr (parent p, dist p)) \<and>
             target_done g v w p"
proof -
  obtain p0 where p0: "start g [] v = Inr p0" "outer g v [] p0"
    using start_outer [OF v] by blast
  obtain p where p: "shortestPathWithQueue_loop g w p0 = Some (Inr p)" "target_done g v w p"
    using target_loop_total [OF wf no w p0(2)] by auto
  have "shortestPathWithQueue g [] v w = Some (Inr (parent p, dist p))"
    by (simp add: shortestPathWithQueue_def p0(1) p(1))
  then show ?thesis using p(2) by blast
qed

lemma early_return:
  "0 < Len p \<Longrightarrow> Pop p = Inr (w, p1) \<Longrightarrow> shortestPathWithQueue_loop g w p = Some (Inr p1)"
  by (subst shortestPathWithQueue_loop.simps) simp

section \<open>Path reconstruction\<close>

lemma climb_sentinel: "climb ps k (-1)"
  by (cases k) simp_all

lemma climb_mono: "climb ps k x \<Longrightarrow> k \<le> k' \<Longrightarrow> climb ps k' x"
proof (induction k arbitrary: k' x)
  case 0
  then show ?case by (simp add: climb_sentinel)
next
  case (Suc k)
  then obtain m where m: "k' = Suc m" "k \<le> m" by (cases k') auto
  show ?case using Suc.prems(1) Suc.IH [of _ m] m by auto
qed

lemma parent_cases:
  assumes I: "invar g v0 D R p" and x: "x < Order g" "dist p ! x \<noteq> -1"
  shows "(x = v0 \<and> parent p ! x = -1) \<or>
         (\<exists>u c. parent p ! x = int u \<and> u \<in> set D \<and> (x, c) \<in> set (edges g u) \<and> 0 \<le> c \<and>
                dist p ! x = dist p ! u + c)"
proof (cases "x = v0")
  case True
  then show ?thesis using I by (simp add: invar_def src_def)
next
  case False
  then show ?thesis using I x unfolding invar_def tree_def by blast
qed

lemma parent_earlier:
  assumes I: "invar g v0 D R p" and i: "i < length D" and u: "parent p ! (D ! i) = int u"
  shows "\<exists>j < i. D ! j = u"
proof -
  have "u \<in> set (take i D)" using I i u unfolding invar_def tree_def by blast
  then obtain j where "j < length (take i D)" "take i D ! j = u"
    by (auto simp: in_set_conv_nth)
  then have "j < i \<and> D ! j = u" by simp
  then show ?thesis by blast
qed

lemma done_vertex:
  assumes I: "invar g v0 D R p" and i: "i < length D"
  shows "D ! i < Order g \<and> dist p ! (D ! i) \<noteq> -1"
proof -
  have "D ! i \<in> set D" using i by simp
  then show ?thesis using I by (auto simp: invar_def part_def)
qed

lemma climb_done:
  assumes I: "invar g v0 D R p"
  shows "i < length D \<Longrightarrow> climb (parent p) (Suc i) (int (D ! i))"
proof (induction i rule: less_induct)
  case (less i)
  let ?x = "D ! i"
  have x: "?x < Order g" "dist p ! ?x \<noteq> -1" using done_vertex [OF I less.prems] by simp_all
  have len: "length (parent p) = Order g" using I by (simp add: invar_def shape_def)
  from parent_cases [OF I x] show ?case
  proof
    assume "?x = v0 \<and> parent p ! ?x = -1"
    then have "parent p ! ?x = -1" by blast
    then show ?thesis using x(1) len by (simp add: climb_sentinel)
  next
    assume "\<exists>u c. parent p ! ?x = int u \<and> u \<in> set D \<and> (?x, c) \<in> set (edges g u) \<and> 0 \<le> c \<and>
                dist p ! ?x = dist p ! u + c"
    then obtain u where u: "parent p ! ?x = int u" by blast
    from parent_earlier [OF I less.prems u] obtain j where j: "j < i" "D ! j = u" by blast
    have "climb (parent p) (Suc j) (int (D ! j))" using less.IH [OF j(1)] j(1) less.prems by simp
    then have "climb (parent p) i (int u)" using climb_mono [of "parent p" "Suc j" _ i] j by simp
    then show ?thesis using x(1) len u by simp
  qed
qed

lemma done_card:
  assumes I: "invar g v0 D R p"
  shows "length D \<le> Order g" and "x < Order g \<Longrightarrow> x \<notin> set D \<Longrightarrow> length D < Order g"
proof -
  have d: "distinct D" "set D \<subseteq> {..<Order g}" using I by (auto simp: invar_def part_def)
  have l: "length D = card (set D)" using d(1) by (simp add: distinct_card)
  show "length D \<le> Order g"
    using card_mono [of "{..<Order g}" "set D"] d(2) l by simp
  assume "x < Order g" "x \<notin> set D"
  then have "set D \<subset> {..<Order g}" using d(2) by auto
  then show "length D < Order g"
    using psubset_card_mono [of "{..<Order g}" "set D"] l by simp
qed

lemma climb_all:
  assumes I: "invar g v0 D R p" and x: "x < Order g" "dist p ! x \<noteq> -1"
  shows "climb (parent p) (Order g) (int x)"
proof (cases "x \<in> set D")
  case True
  then obtain i where i: "i < length D" "D ! i = x" by (auto simp: in_set_conv_nth)
  have "climb (parent p) (Suc i) (int (D ! i))" using climb_done [OF I i(1)] .
  moreover have "Suc i \<le> Order g" using i(1) done_card(1) [OF I] by simp
  ultimately show ?thesis using climb_mono i(2) by blast
next
  case False
  have len: "length (parent p) = Order g" using I by (simp add: invar_def shape_def)
  have lt: "length D < Order g" using done_card(2) [OF I x(1) False] .
  then obtain m where m: "Order g = Suc m" "length D \<le> m" by (cases "Order g") auto
  from parent_cases [OF I x] show ?thesis
  proof
    assume "x = v0 \<and> parent p ! x = -1"
    then have "parent p ! x = -1" by blast
    then show ?thesis using x(1) len m by (simp add: climb_sentinel)
  next
    assume "\<exists>u c. parent p ! x = int u \<and> u \<in> set D \<and> (x, c) \<in> set (edges g u) \<and> 0 \<le> c \<and>
                dist p ! x = dist p ! u + c"
    then obtain u where u: "parent p ! x = int u" "u \<in> set D" by blast
    then obtain j where j: "j < length D" "D ! j = u" by (auto simp: in_set_conv_nth)
    have "climb (parent p) (Suc j) (int (D ! j))" using climb_done [OF I j(1)] .
    then have "climb (parent p) m (int u)"
      using climb_mono [of "parent p" "Suc j" _ m] j m by simp
    then show ?thesis using x(1) len u m by simp
  qed
qed

lemma collect_done:
  assumes I: "invar g v0 D R p"
  shows "i < length D \<Longrightarrow>
     \<exists>es. collect (parent p) (int (D ! i)) acc =
             Some (Inr (acc @ rev (map int (v0 # map fst es)))) \<and>
          is_path g v0 es (D ! i) \<and> weight es = dist p ! (D ! i)"
proof (induction i arbitrary: acc rule: less_induct)
  case (less i)
  let ?x = "D ! i"
  have x: "?x < Order g" "dist p ! ?x \<noteq> -1" using done_vertex [OF I less.prems] by simp_all
  have len: "length (parent p) = Order g" using I by (simp add: invar_def shape_def)
  from parent_cases [OF I x] show ?case
  proof
    assume a: "?x = v0 \<and> parent p ! ?x = -1"
    then have a2: "parent p ! ?x = -1" by blast
    have "collect (parent p) (-1) (acc @ [int ?x]) = Some (Inr (acc @ [int ?x]))"
      by (subst collect.simps) simp
    then have "collect (parent p) (int ?x) acc = Some (Inr (acc @ [int ?x]))"
      using a2 x(1) len by (subst collect.simps) simp
    moreover have "dist p ! v0 = 0" using I by (simp add: invar_def src_def)
    ultimately have "collect (parent p) (int ?x) acc =
          Some (Inr (acc @ rev (map int (v0 # map fst [])))) \<and>
        is_path g v0 [] ?x \<and> weight [] = dist p ! ?x"
      using a by (simp add: weight_Nil)
    then show ?thesis by blast
  next
    assume "\<exists>u c. parent p ! ?x = int u \<and> u \<in> set D \<and> (?x, c) \<in> set (edges g u) \<and> 0 \<le> c \<and>
                dist p ! ?x = dist p ! u + c"
    then obtain u c where u: "parent p ! ?x = int u" "(?x, c) \<in> set (edges g u)" "0 \<le> c"
        "dist p ! ?x = dist p ! u + c"
      by blast
    from parent_earlier [OF I less.prems u(1)] obtain j where j: "j < i" "D ! j = u" by blast
    have jl: "j < length D" using j(1) less.prems by simp
    from less.IH [OF j(1) jl, of "acc @ [int ?x]"] obtain es where
      es: "collect (parent p) (int u) (acc @ [int ?x]) =
             Some (Inr ((acc @ [int ?x]) @ rev (map int (v0 # map fst es))))"
          "is_path g v0 es u" "weight es = dist p ! u"
      using j(2) by auto
    have "collect (parent p) (int ?x) acc = collect (parent p) (int u) (acc @ [int ?x])"
      using x(1) len u(1) by (subst collect.simps) simp
    then have "collect (parent p) (int ?x) acc =
          Some (Inr (acc @ rev (map int (v0 # map fst (es @ [(?x, c)])))))"
      using es(1) by simp
    moreover have "is_path g v0 (es @ [(?x, c)]) ?x"
      using es(2) u(2,3) by (auto simp: is_path_snoc)
    moreover have "weight (es @ [(?x, c)]) = dist p ! ?x"
      using es(3) u(4) by (simp add: weight_snoc)
    ultimately show ?thesis by blast
  qed
qed

lemma reverse_nth:
  "0 \<le> i \<Longrightarrow> j < int (length xs) \<Longrightarrow>
   \<exists>ys. reverse xs i j = Inr ys \<and> length ys = length xs \<and>
        (\<forall>k < length xs. ys ! k =
           (if i \<le> int k \<and> int k \<le> j then xs ! nat (i + j - int k) else xs ! k))"
proof (induction xs i j rule: reverse.induct)
  case (1 path i j)
  show ?case
  proof (cases "i < j")
    case False
    have "\<forall>k < length path. path ! k =
           (if i \<le> int k \<and> int k \<le> j then path ! nat (i + j - int k) else path ! k)"
    proof (intro allI impI)
      fix k assume "k < length path"
      show "path ! k = (if i \<le> int k \<and> int k \<le> j then path ! nat (i + j - int k) else path ! k)"
      proof (cases "i \<le> int k \<and> int k \<le> j")
        case inside: True
        then have "nat (i + j - int k) = k" using False by auto
        then show ?thesis using inside by simp
      next
        case outside: False
        then show ?thesis by auto
      qed
    qed
    then show ?thesis using False by (simp add: reverse.simps)
  next
    case True
    have rng: "0 \<le> i \<and> nat j < length path" using "1.prems" True by auto
    let ?xs = "path[nat i := path ! nat j, nat j := path ! nat i]"
    have "\<exists>ys. reverse ?xs (i + 1) (j - 1) = Inr ys \<and> length ys = length ?xs \<and>
        (\<forall>k < length ?xs. ys ! k =
           (if i + 1 \<le> int k \<and> int k \<le> j - 1 then ?xs ! nat (i + 1 + (j - 1) - int k)
            else ?xs ! k))"
      using "1.IH" [OF True rng] "1.prems" by simp
    then obtain ys where ys: "reverse ?xs (i + 1) (j - 1) = Inr ys" "length ys = length path"
      "\<And>k. k < length path \<Longrightarrow> ys ! k =
           (if i + 1 \<le> int k \<and> int k \<le> j - 1 then ?xs ! nat (i + j - int k) else ?xs ! k)"
      by auto
    have r: "reverse path i j = Inr ys"
      using True rng ys(1) by (subst reverse.simps) simp
    have "\<forall>k < length path. ys ! k =
           (if i \<le> int k \<and> int k \<le> j then path ! nat (i + j - int k) else path ! k)"
    proof (intro allI impI)
      fix k assume k: "k < length path"
      have ni: "nat i < length path" using rng True by auto
      consider (mid) "i + 1 \<le> int k \<and> int k \<le> j - 1" | (lo) "int k = i" | (hi) "int k = j"
        | (out) "int k < i \<or> j < int k"
        by linarith
      then show "ys ! k = (if i \<le> int k \<and> int k \<le> j then path ! nat (i + j - int k) else path ! k)"
      proof cases
        case mid
        let ?m = "nat (i + j - int k)"
        have "?m \<noteq> nat i" "?m \<noteq> nat j" using mid rng by auto
        then have "?xs ! ?m = path ! ?m" by simp
        then show ?thesis using ys(3) [OF k] mid by simp
      next
        case lo
        then have ki: "k = nat i" by simp
        have "nat i \<noteq> nat j" using True rng by auto
        then have "?xs ! k = path ! nat j" using ki ni by simp
        moreover have "nat (i + j - int k) = nat j" using lo by simp
        ultimately show ?thesis using ys(3) [OF k] lo True by simp
      next
        case hi
        then have kj: "k = nat j" by simp
        have "?xs ! k = path ! nat i" using kj rng by simp
        moreover have "nat (i + j - int k) = nat i" using hi by simp
        ultimately show ?thesis using ys(3) [OF k] hi True by simp
      next
        case out
        then have "k \<noteq> nat i" "k \<noteq> nat j" using rng True by (auto simp: nat_eq_iff2)
        then have "?xs ! k = path ! k" by simp
        then show ?thesis using ys(3) [OF k] out by auto
      qed
    qed
    then show ?thesis using r ys(2) by blast
  qed
qed

lemma reverse_rev: "reverse xs 0 (int (length xs) - 1) = Inr (rev xs)"
proof -
  obtain ys where ys: "reverse xs 0 (int (length xs) - 1) = Inr ys" "length ys = length xs"
    "\<forall>k < length xs. ys ! k =
       (if 0 \<le> int k \<and> int k \<le> int (length xs) - 1
        then xs ! nat (0 + (int (length xs) - 1) - int k) else xs ! k)"
    using reverse_nth [of 0 "int (length xs) - 1" xs] by auto
  have "ys = rev xs"
  proof (rule nth_equalityI)
    show "length ys = length (rev xs)" using ys(2) by simp
  next
    fix k assume "k < length ys"
    then have k: "k < length xs" using ys(2) by simp
    have "nat (0 + (int (length xs) - 1) - int k) = length xs - Suc k" using k by auto
    then show "ys ! k = rev xs ! k" using ys(3) k by (simp add: rev_nth)
  qed
  then show ?thesis using ys(1) by simp
qed

section \<open>The results of \<^verbatim>\<open>ShortestPath\<close>\<close>

lemma is_path_last: "is_path g v es w \<Longrightarrow> last (v # map fst es) = w"
  by (induction es arbitrary: v) auto

lemma ShortestPath_result:
  assumes wf: "wf_graph g" and no: "no_overflow g" and v: "v < Order g" and w: "w < Order g"
  shows "\<exists>p. shortestPathWithQueue g [] v w = Some (Inr (parent p, dist p)) \<and>
             target_done g v w p \<and>
             (dist p ! w = -1 \<longrightarrow> ShortestPath g v w = Some (Inr ([], -1))) \<and>
             (dist p ! w \<noteq> -1 \<longrightarrow>
                (\<exists>es. ShortestPath g v w = Some (Inr (map int (v # map fst es), dist p ! w)) \<and>
                      is_path g v es w \<and> weight es = dist p ! w))"
proof -
  obtain p where p: "shortestPathWithQueue g [] v w = Some (Inr (parent p, dist p))"
      "target_done g v w p"
    using shortestPathWithQueue_result [OF assms] by blast
  obtain D R where I: "invar g v D R p" and wD: "dist p ! w \<noteq> -1 \<longrightarrow> w \<in> set D"
    using p(2) unfolding target_done_def by blast
  have len: "length (dist p) = Order g" using I by (simp add: invar_def shape_def)
  have a: "dist p ! w = -1 \<longrightarrow> ShortestPath g v w = Some (Inr ([], -1))"
    using w len by (simp add: ShortestPath_def ShortestPathWithQueue_def p(1))
  have b: "dist p ! w \<noteq> -1 \<longrightarrow>
      (\<exists>es. ShortestPath g v w = Some (Inr (map int (v # map fst es), dist p ! w)) \<and>
            is_path g v es w \<and> weight es = dist p ! w)"
  proof
    assume d: "dist p ! w \<noteq> -1"
    then obtain i where i: "i < length D" "D ! i = w" using wD by (auto simp: in_set_conv_nth)
    from collect_done [OF I i(1), of "[]"] obtain es where
      es: "collect (parent p) (int w) [] = Some (Inr (rev (map int (v # map fst es))))"
          "is_path g v es w" "weight es = dist p ! w"
      using i(2) by auto
    let ?path = "rev (map int (v # map fst es))"
    have "reverse ?path 0 (int (length ?path) - 1) = Inr (rev ?path)" by (rule reverse_rev)
    then have "ShortestPath g v w = Some (Inr (rev ?path, dist p ! w))"
      using w len d by (simp add: ShortestPath_def ShortestPathWithQueue_def p(1) es(1))
    then have "ShortestPath g v w = Some (Inr (map int (v # map fst es), dist p ! w)) \<and>
        is_path g v es w \<and> weight es = dist p ! w"
      using es(2,3) by simp
    then show "\<exists>es. ShortestPath g v w = Some (Inr (map int (v # map fst es), dist p ! w)) \<and>
        is_path g v es w \<and> weight es = dist p ! w"
      by blast
  qed
  show ?thesis using p a b by blast
qed

lemma target_done_sound:
  assumes "target_done g v w p" "w < Order g" "dist p ! w \<noteq> -1"
  shows "\<exists>es. is_path g v es w \<and> weight es = dist p ! w"
  using assms unfolding target_done_def invar_def sound_def by blast

lemma target_done_optimal:
  assumes "target_done g v w p" "is_path g v es w"
  shows "dist p ! w \<noteq> -1 \<and> dist p ! w \<le> weight es"
  using assms unfolding target_done_def by blast

section \<open>Path consistency\<close>

text \<open>
  C4 (as amended). On a well-formed traversal source whose non-negative edge costs sum to
  less than \<open>2 ^ 63\<close>, for vertices \<open>v\<close> and \<open>w\<close> below \<open>Order g\<close> with \<open>w\<close> reachable from
  \<open>v\<close> over edges of non-negative cost, \<open>ShortestPath g v w\<close> returns the vertices of a
  path of the graph from \<open>v\<close> to \<open>w\<close> (first element \<open>v\<close>, last element \<open>w\<close>, consecutive
  elements joined by an edge) together with the sum of the costs of its edges.
\<close>

theorem path_consistent:
  assumes "wf_graph g" and "no_overflow g" and "v < Order g" and "w < Order g"
    and "is_path g v es0 w"
  shows "\<exists>es. ShortestPath g v w = Some (Inr (map int (v # map fst es), weight es)) \<and>
              is_path g v es w \<and>
              hd (map int (v # map fst es)) = int v \<and> last (map int (v # map fst es)) = int w"
proof -
  obtain p where p: "target_done g v w p"
      "dist p ! w \<noteq> -1 \<longrightarrow>
         (\<exists>es. ShortestPath g v w = Some (Inr (map int (v # map fst es), dist p ! w)) \<and>
               is_path g v es w \<and> weight es = dist p ! w)"
    using ShortestPath_result [OF assms(1-4)] by blast
  have "dist p ! w \<noteq> -1" using target_done_optimal [OF p(1) assms(5)] by simp
  then obtain es where es: "ShortestPath g v w = Some (Inr (map int (v # map fst es), dist p ! w))"
      "is_path g v es w" "weight es = dist p ! w"
    using p(2) by blast
  have l1: "last (map int (v # map fst es)) = int (last (v # map fst es))"
    by (rule last_map) simp
  have l2: "last (v # map fst es) = w" by (rule is_path_last [OF es(2)])
  have "last (map int (v # map fst es)) = int w" by (simp only: l1 l2)
  then have "ShortestPath g v w = Some (Inr (map int (v # map fst es), weight es)) \<and>
      is_path g v es w \<and>
      hd (map int (v # map fst es)) = int v \<and> last (map int (v # map fst es)) = int w"
    using es by simp
  then show ?thesis by blast
qed

theorem path_consistent_witness:
  "wf_graph g2 \<and> no_overflow g2 \<and> (0::nat) < Order g2 \<and> (1::nat) < Order g2 \<and>
   is_path g2 0 [(1, 5)] 1 \<and>
   (\<exists>es. ShortestPath g2 0 1 = Some (Inr (map int (0 # map fst es), weight es)) \<and>
         is_path g2 0 es 1 \<and>
         hd (map int (0 # map fst es)) = int 0 \<and> last (map int (0 # map fst es)) = int 1)"
proof -
  have v: "(0::nat) < Order g2" and w: "(1::nat) < Order g2" by (simp_all add: g2_def)
  have r: "is_path g2 0 [(1, 5)] 1" by (simp add: g2_def)
  show ?thesis using path_consistent [OF wf_g2 no_g2 v w r] wf_g2 no_g2 v w r by blast
qed

text \<open>
  Without the bound on the costs the claim fails: on \<open>g_ovf\<close> vertex 2 is reachable from
  vertex 0 and the returned distance \<open>- (2 ^ 63)\<close> is the weight of no path.
\<close>

lemma ShortestPath_g_ovf: "ShortestPath g_ovf 0 2 = Some (Inr ([0, 1, 2], - (2 ^ 63)))"
  by (simp add: g_ovf_def run_simps reverse.simps)

theorem path_overflow_counterexample:
  "wf_graph g_ovf \<and> int64_costs g_ovf \<and> is_path g_ovf 0 [(1, 2 ^ 62), (2, 2 ^ 62)] 2 \<and>
   ShortestPath g_ovf 0 2 = Some (Inr ([0, 1, 2], - (2 ^ 63))) \<and>
   \<not> (\<exists>es. is_path g_ovf 0 es 2 \<and> weight es = - (2 ^ 63))"
proof -
  have "\<And>es. is_path g_ovf 0 es 2 \<Longrightarrow> weight es \<noteq> - (2 ^ 63)"
    using is_path_weight_nonneg [of g_ovf 0 _ 2] by fastforce
  moreover have "is_path g_ovf 0 [(1, 2 ^ 62), (2, 2 ^ 62)] 2" by (simp add: g_ovf_def)
  ultimately show ?thesis using wf_g_ovf int64_costs_g_ovf ShortestPath_g_ovf by blast
qed

section \<open>Unreachable targets\<close>

text \<open>
  C5 (as amended). On a well-formed traversal source whose non-negative edge costs sum to
  less than \<open>2 ^ 63\<close>, for vertices \<open>v\<close> and \<open>w\<close> below \<open>Order g\<close> with no path from \<open>v\<close> to
  \<open>w\<close> over edges of non-negative cost, both searches end with \<open>dist ! w = -1\<close>, and
  \<open>ShortestPath g v w\<close> returns the empty path and the distance \<open>-1\<close> (a normal return,
  not a panic).
\<close>

theorem unreachable_result:
  assumes "wf_graph g" and "no_overflow g" and "v < Order g" and "w < Order g"
    and "\<not> (\<exists>es. is_path g v es w)"
  shows "(\<exists>ps ds. ShortestPaths g v = Some (Inr (ps, ds)) \<and> ds ! w = -1) \<and>
         (\<exists>ps ds. shortestPathWithQueue g [] v w = Some (Inr (ps, ds)) \<and> ds ! w = -1) \<and>
         ShortestPath g v w = Some (Inr ([], -1))"
proof -
  obtain D p where p: "ShortestPaths g v = Some (Inr (parent p, dist p))" "outer g v D p"
      "queue p = []"
    using ShortestPaths_result [OF assms(1-3)] by blast
  have "dist p ! w = -1"
    using outer_final_optimal [OF assms(1) p(2,3) assms(4)] assms(5) by blast
  then have 1: "\<exists>ps ds. ShortestPaths g v = Some (Inr (ps, ds)) \<and> ds ! w = -1"
    using p(1) by blast
  obtain p' where p': "shortestPathWithQueue g [] v w = Some (Inr (parent p', dist p'))"
      "target_done g v w p'"
      "dist p' ! w = -1 \<longrightarrow> ShortestPath g v w = Some (Inr ([], -1))"
    using ShortestPath_result [OF assms(1-4)] by blast
  have d: "dist p' ! w = -1"
    using target_done_sound [OF p'(2) assms(4)] assms(5) by blast
  then have 2: "\<exists>ps ds. shortestPathWithQueue g [] v w = Some (Inr (ps, ds)) \<and> ds ! w = -1"
    using p'(1) by blast
  show ?thesis using 1 2 p'(3) d by blast
qed

lemma no_path_g2: "\<not> (\<exists>es. is_path g2 1 es 0)"
proof
  assume "\<exists>es. is_path g2 1 es 0"
  then obtain es where "is_path g2 1 es 0" by blast
  then show False by (cases es) (auto simp: g2_def)
qed

theorem unreachable_result_witness:
  "wf_graph g2 \<and> no_overflow g2 \<and> (1::nat) < Order g2 \<and> (0::nat) < Order g2 \<and>
   \<not> (\<exists>es. is_path g2 1 es 0) \<and>
   (\<exists>ps ds. ShortestPaths g2 1 = Some (Inr (ps, ds)) \<and> ds ! 0 = -1) \<and>
   (\<exists>ps ds. shortestPathWithQueue g2 [] 1 0 = Some (Inr (ps, ds)) \<and> ds ! 0 = -1) \<and>
   ShortestPath g2 1 0 = Some (Inr ([], -1))"
proof -
  have v: "(1::nat) < Order g2" and w: "(0::nat) < Order g2" by (simp_all add: g2_def)
  show ?thesis
    using unreachable_result [OF wf_g2 no_g2 v w no_path_g2] wf_g2 no_g2 v w no_path_g2
    by blast
qed

text \<open>
  Without the bound on the costs the claim fails: on \<open>g_loop\<close> vertex 4 has no incoming
  edge, and the search for it does not return. Vertex 3 is pushed with the wrapped
  distance \<open>-1\<close>; when it is popped, its loop of cost 0 finds \<open>dist ! 3 = -1\<close>, takes the
  vertex for a new one and pushes it again, with distance \<open>-1\<close>, for ever.
\<close>

lemma loop_g_loop_diverges:
  "shortestPathWithQueue_loop g_loop 4
     \<lparr>dist = [0, 2 ^ 63 - 1, -2, -1, -1], parent = [-1, 0, 1, 3, -1], queue = [3], vtx = 3\<rparr> = None"
proof (rule ccontr)
  let ?s = "\<lparr>dist = [0, 2 ^ 63 - 1, -2, -1, -1], parent = [-1, 0, 1, 3, -1], queue = [3], vtx = 3\<rparr>"
  assume "shortestPathWithQueue_loop g_loop 4 ?s \<noteq> None"
  then obtain y where y: "shortestPathWithQueue_loop g_loop 4 ?s = Some y" by auto
  have "\<not> (g_loop = g_loop \<and> (4::nat) = 4 \<and> ?s = ?s)"
    apply (rule shortestPathWithQueue_loop.raw_induct
        [where P = "\<lambda>g w p y. \<not> (g = g_loop \<and> w = 4 \<and> p = ?s)", OF _ y])
    subgoal premises prems for lp g w p r
    proof
      assume a: "g = g_loop \<and> w = 4 \<and> p = ?s"
      have "lp g_loop 4 ?s = Some r"
        using prems(2) a by (simp add: g_loop_def step_simps Visit_def)
      then show False using prems(1) by blast
    qed
    done
  then show False by simp
qed

lemma ShortestPath_g_loop: "ShortestPath g_loop 0 4 = None"
proof -
  let ?s0 = "\<lparr>dist = [0, -1, -1, -1, -1], parent = [-1, -1, -1, -1, -1], queue = [0], vtx = 0\<rparr>"
  let ?s1 = "\<lparr>dist = [0, 2 ^ 63 - 1, -1, -1, -1], parent = [-1, 0, -1, -1, -1], queue = [1], vtx = 0\<rparr>"
  let ?s2 = "\<lparr>dist = [0, 2 ^ 63 - 1, -2, -1, -1], parent = [-1, 0, 1, -1, -1], queue = [2], vtx = 1\<rparr>"
  let ?s3 = "\<lparr>dist = [0, 2 ^ 63 - 1, -2, -1, -1], parent = [-1, 0, 1, 2, -1], queue = [3], vtx = 2\<rparr>"
  let ?s4 = "\<lparr>dist = [0, 2 ^ 63 - 1, -2, -1, -1], parent = [-1, 0, 1, 3, -1], queue = [3], vtx = 3\<rparr>"
  have s: "start g_loop [] 0 = Inr ?s0" by (simp add: g_loop_def step_simps numeral_eq_Suc)
  have "shortestPathWithQueue_loop g_loop 4 ?s0 = shortestPathWithQueue_loop g_loop 4 ?s1"
    by (subst shortestPathWithQueue_loop.simps) (simp add: g_loop_def step_simps Visit_def)
  also have "\<dots> = shortestPathWithQueue_loop g_loop 4 ?s2"
    by (subst shortestPathWithQueue_loop.simps) (simp add: g_loop_def step_simps Visit_def)
  also have "\<dots> = shortestPathWithQueue_loop g_loop 4 ?s3"
    by (subst shortestPathWithQueue_loop.simps) (simp add: g_loop_def step_simps Visit_def)
  also have "\<dots> = shortestPathWithQueue_loop g_loop 4 ?s4"
    by (subst shortestPathWithQueue_loop.simps) (simp add: g_loop_def step_simps Visit_def)
  also have "\<dots> = None" by (rule loop_g_loop_diverges)
  finally show ?thesis
    by (simp add: ShortestPath_def ShortestPathWithQueue_def shortestPathWithQueue_def s)
qed

lemma no_path_g_loop: "\<not> (\<exists>es. is_path g_loop 0 es 4)"
proof
  assume "\<exists>es. is_path g_loop 0 es 4"
  then obtain es where es: "is_path g_loop 0 es 4" by blast
  show False
  proof (cases es rule: rev_cases)
    case Nil
    then show ?thesis using es by simp
  next
    case (snoc es' e)
    obtain x c where e: "e = (x, c)" by (cases e)
    obtain y where "(4, c) \<in> set (edges g_loop y)"
      using es unfolding snoc e is_path_snoc by blast
    then show ?thesis by (simp add: g_loop_def split: if_splits)
  qed
qed

theorem unreachable_overflow_counterexample:
  "wf_graph g_loop \<and> int64_costs g_loop \<and> \<not> (\<exists>es. is_path g_loop 0 es 4) \<and>
   ShortestPath g_loop 0 4 = None"
proof -
  have "wf_graph g_loop" by (simp add: wf_graph_def g_loop_def numeral_eq_Suc)
  moreover have "int64_costs g_loop" by (simp add: int64_costs_def g_loop_def numeral_eq_Suc)
  ultimately show ?thesis using no_path_g_loop ShortestPath_g_loop by blast
qed

section \<open>Early exit at the target\<close>

text \<open>
  C6 (as amended). In the loop of \<open>shortestPathWithQueue\<close>, when the popped vertex is the
  target, the loop returns at once the path finder that \<open>Pop\<close> left: \<open>dist\<close> and
  \<open>parent\<close> are those from before the pop, so no edge of the target is relaxed and no
  further vertex is popped. On a well-formed traversal source whose non-negative edge costs
  sum to less than \<open>2 ^ 63\<close>, the distance that the search returns for the target \<open>t\<close> is
  the one that \<open>ShortestPaths\<close> ends with, it is at most the weight of every path from the
  source to \<open>t\<close>, and, unless it is \<open>-1\<close>, it is the weight of such a path; \<open>ShortestPath\<close>
  returns this distance.
\<close>

theorem early_exit:
  "(0 < Len p \<and> Pop p = Inr (w, p1) \<longrightarrow>
      shortestPathWithQueue_loop g' w p = Some (Inr p1) \<and>
      dist p1 = dist p \<and> parent p1 = parent p \<and> queue p1 = remove1 w (queue p)) \<and>
   (wf_graph g \<and> no_overflow g \<and> v < Order g \<and> t < Order g \<longrightarrow>
      (\<exists>ps ds ps' ds'.
          shortestPathWithQueue g [] v t = Some (Inr (ps, ds)) \<and>
          (\<exists>path. ShortestPath g v t = Some (Inr (path, ds ! t))) \<and>
          ShortestPaths g v = Some (Inr (ps', ds')) \<and> ds ! t = ds' ! t \<and>
          (\<forall>es. is_path g v es t \<longrightarrow> ds ! t \<le> weight es) \<and>
          (ds ! t \<noteq> -1 \<longrightarrow> (\<exists>es. is_path g v es t \<and> weight es = ds ! t))))"
proof (rule conjI; rule impI)
  assume "0 < Len p \<and> Pop p = Inr (w, p1)"
  then show "shortestPathWithQueue_loop g' w p = Some (Inr p1) \<and>
      dist p1 = dist p \<and> parent p1 = parent p \<and> queue p1 = remove1 w (queue p)"
    using early_return [of p w p1 g'] Pop_fields [of p w p1] by simp
next
  assume a: "wf_graph g \<and> no_overflow g \<and> v < Order g \<and> t < Order g"
  then have wf: "wf_graph g" and no: "no_overflow g" and v: "v < Order g" and t: "t < Order g"
    by simp_all
  obtain p where p: "shortestPathWithQueue g [] v t = Some (Inr (parent p, dist p))"
      "target_done g v t p"
      "dist p ! t = -1 \<longrightarrow> ShortestPath g v t = Some (Inr ([], -1))"
      "dist p ! t \<noteq> -1 \<longrightarrow>
         (\<exists>es. ShortestPath g v t = Some (Inr (map int (v # map fst es), dist p ! t)) \<and>
               is_path g v es t \<and> weight es = dist p ! t)"
    using ShortestPath_result [OF wf no v t] by blast
  have ret: "\<exists>path. ShortestPath g v t = Some (Inr (path, dist p ! t))"
    using p(3,4) by (cases "dist p ! t = -1") auto
  obtain D q where q: "ShortestPaths g v = Some (Inr (parent q, dist q))" "outer g v D q"
      "queue q = []"
    using ShortestPaths_result [OF wf no v] by blast
  note fin = outer_final_optimal [OF wf q(2,3) t]
  have opt: "\<forall>es. is_path g v es t \<longrightarrow> dist p ! t \<le> weight es"
    using target_done_optimal [OF p(2)] by blast
  have snd: "dist p ! t \<noteq> -1 \<longrightarrow> (\<exists>es. is_path g v es t \<and> weight es = dist p ! t)"
    using target_done_sound [OF p(2) t] by blast
  have eq: "dist p ! t = dist q ! t"
  proof (cases "dist p ! t = -1")
    case True
    have "dist q ! t = -1"
    proof (rule ccontr)
      assume "dist q ! t \<noteq> -1"
      then obtain es where "is_path g v es t" using fin by blast
      then show False using target_done_optimal [OF p(2)] True by blast
    qed
    then show ?thesis using True by simp
  next
    case False
    then obtain es where es: "is_path g v es t" "weight es = dist p ! t" using snd by blast
    then have 1: "dist q ! t \<noteq> -1" "dist q ! t \<le> dist p ! t" using fin by auto
    then obtain es' where es': "is_path g v es' t" "weight es' = dist q ! t" using fin by blast
    then have "dist p ! t \<le> dist q ! t" using opt by auto
    then show ?thesis using 1 by simp
  qed
  show "\<exists>ps ds ps' ds'.
          shortestPathWithQueue g [] v t = Some (Inr (ps, ds)) \<and>
          (\<exists>path. ShortestPath g v t = Some (Inr (path, ds ! t))) \<and>
          ShortestPaths g v = Some (Inr (ps', ds')) \<and> ds ! t = ds' ! t \<and>
          (\<forall>es. is_path g v es t \<longrightarrow> ds ! t \<le> weight es) \<and>
          (ds ! t \<noteq> -1 \<longrightarrow> (\<exists>es. is_path g v es t \<and> weight es = ds ! t))"
    using p(1) ret q(1) eq opt snd by blast
qed

theorem early_exit_witness:
  "0 < Len \<lparr>dist = [0, 5], parent = [-1, 0], queue = [1], vtx = 0\<rparr> \<and>
   Pop \<lparr>dist = [0, 5], parent = [-1, 0], queue = [1], vtx = 0\<rparr> =
     Inr (1, \<lparr>dist = [0, 5], parent = [-1, 0], queue = [], vtx = 0\<rparr>) \<and>
   shortestPathWithQueue_loop g2 1 \<lparr>dist = [0, 5], parent = [-1, 0], queue = [1], vtx = 0\<rparr> =
     Some (Inr \<lparr>dist = [0, 5], parent = [-1, 0], queue = [], vtx = 0\<rparr>) \<and>
   wf_graph g2 \<and> no_overflow g2 \<and> (0::nat) < Order g2 \<and> (1::nat) < Order g2 \<and>
   (\<exists>ps ds ps' ds'.
       shortestPathWithQueue g2 [] 0 1 = Some (Inr (ps, ds)) \<and>
       (\<exists>path. ShortestPath g2 0 1 = Some (Inr (path, ds ! 1))) \<and>
       ShortestPaths g2 0 = Some (Inr (ps', ds')) \<and> ds ! 1 = ds' ! 1 \<and>
       (\<forall>es. is_path g2 0 es 1 \<longrightarrow> ds ! 1 \<le> weight es) \<and>
       (ds ! 1 \<noteq> -1 \<longrightarrow> (\<exists>es. is_path g2 0 es 1 \<and> weight es = ds ! 1)))"
proof -
  let ?p = "\<lparr>dist = [0, 5], parent = [-1, 0], queue = [1], vtx = 0\<rparr>"
  let ?p1 = "\<lparr>dist = [0, 5], parent = [-1, 0], queue = [], vtx = 0\<rparr>"
  have l: "0 < Len ?p" and po: "Pop ?p = Inr (1, ?p1)" by (simp_all add: step_simps)
  have v: "(0::nat) < Order g2" and w: "(1::nat) < Order g2" by (simp_all add: g2_def)
  show ?thesis
    using early_exit [of ?p 1 ?p1 g2 g2 0 1] l po wf_g2 no_g2 v w by simp
qed

text \<open>
  Without the bound on the costs the claim fails: on \<open>g_m1\<close> vertex 3 is reachable from
  vertex 0; the search for it returns when it is popped with the wrapped distance \<open>-1\<close>,
  the mark of an unreached vertex, while \<open>ShortestPaths\<close> ends with the distance 0 for it.
\<close>

lemma shortestPathWithQueue_g_m1:
  "shortestPathWithQueue g_m1 [] 0 3 =
     Some (Inr ([-1, 0, 1, 2], [0, 2 ^ 63 - 1, -2, -1]))"
  by (simp add: g_m1_def run_simps numeral_eq_Suc)

lemma ShortestPaths_g_m1:
  "ShortestPaths g_m1 0 = Some (Inr ([-1, 0, 1, 3], [0, 2 ^ 63 - 1, -2, 0]))"
  by (simp add: g_m1_def run_simps numeral_eq_Suc)

theorem early_exit_overflow_counterexample:
  "wf_graph g_m1 \<and> int64_costs g_m1 \<and>
   is_path g_m1 0 [(1, 2 ^ 63 - 1), (2, 2 ^ 63 - 1), (3, 1)] 3 \<and>
   shortestPathWithQueue g_m1 [] 0 3 = Some (Inr ([-1, 0, 1, 2], [0, 2 ^ 63 - 1, -2, -1])) \<and>
   ShortestPaths g_m1 0 = Some (Inr ([-1, 0, 1, 3], [0, 2 ^ 63 - 1, -2, 0])) \<and>
   [0, 2 ^ 63 - 1, -2, -1] ! 3 \<noteq> [0, 2 ^ 63 - 1, -2, (0::int)] ! 3"
proof -
  have "is_path g_m1 0 [(1, 2 ^ 63 - 1), (2, 2 ^ 63 - 1), (3, 1)] 3" by (simp add: g_m1_def)
  then show ?thesis
    using wf_g_m1 int64_costs_g_m1 shortestPathWithQueue_g_m1 ShortestPaths_g_m1 by simp
qed

section \<open>The parent links\<close>

text \<open>
  C10 (as amended). On a well-formed traversal source whose non-negative edge costs sum
  to less than \<open>2 ^ 63\<close>, both searches return, and in the slices they return the parent
  links lead from every vertex \<open>w\<close> with \<open>dist ! w \<noteq> -1\<close> to the sentinel \<open>-1\<close> in at most
  \<open>Order g\<close> steps; the loop of \<open>ShortestPathWithQueue\<close> that collects the path returns,
  and so does \<open>ShortestPathWithQueue\<close>.
\<close>

theorem parent_links_acyclic:
  assumes "wf_graph g" and "no_overflow g" and "v < Order g"
  shows "(\<exists>ps ds. ShortestPaths g v = Some (Inr (ps, ds)) \<and>
            (\<forall>w < Order g. ds ! w \<noteq> -1 \<longrightarrow> climb ps (Order g) (int w))) \<and>
         (\<forall>w < Order g. \<exists>ps ds.
            shortestPathWithQueue g [] v w = Some (Inr (ps, ds)) \<and>
            (\<forall>x < Order g. ds ! x \<noteq> -1 \<longrightarrow> climb ps (Order g) (int x)) \<and>
            (\<exists>path. collect ps (int w) [] = Some (Inr path)) \<and>
            (\<exists>r. ShortestPathWithQueue g [] v w = Some (Inr r)))"
proof (intro conjI allI impI)
  obtain D p where p: "ShortestPaths g v = Some (Inr (parent p, dist p))" "outer g v D p"
    using ShortestPaths_result [OF assms] by blast
  have "\<forall>w < Order g. dist p ! w \<noteq> -1 \<longrightarrow> climb (parent p) (Order g) (int w)"
    using climb_all [of g v D "full g D" p] p(2) unfolding outer_def by blast
  then show "\<exists>ps ds. ShortestPaths g v = Some (Inr (ps, ds)) \<and>
            (\<forall>w < Order g. ds ! w \<noteq> -1 \<longrightarrow> climb ps (Order g) (int w))"
    using p(1) by blast
next
  fix w assume w: "w < Order g"
  obtain p where p: "shortestPathWithQueue g [] v w = Some (Inr (parent p, dist p))"
      "target_done g v w p"
      "dist p ! w = -1 \<longrightarrow> ShortestPath g v w = Some (Inr ([], -1))"
      "dist p ! w \<noteq> -1 \<longrightarrow>
         (\<exists>es. ShortestPath g v w = Some (Inr (map int (v # map fst es), dist p ! w)) \<and>
               is_path g v es w \<and> weight es = dist p ! w)"
    using ShortestPath_result [OF assms w] by blast
  obtain D R where I: "invar g v D R p" and wD: "dist p ! w \<noteq> -1 \<longrightarrow> w \<in> set D"
    using p(2) unfolding target_done_def by blast
  have c: "\<forall>x < Order g. dist p ! x \<noteq> -1 \<longrightarrow> climb (parent p) (Order g) (int x)"
    using climb_all [OF I] by blast
  have len: "length (parent p) = Order g" using I by (simp add: invar_def shape_def)
  have col: "\<exists>path. collect (parent p) (int w) [] = Some (Inr path)"
  proof (cases "dist p ! w = -1")
    case True
    then have pw: "parent p ! w = -1" using I w unfolding invar_def tree_def by blast
    have "collect (parent p) (-1) [int w] = Some (Inr [int w])"
      by (subst collect.simps) simp
    then have "collect (parent p) (int w) [] = Some (Inr [int w])"
      using pw w len by (subst collect.simps) simp
    then show ?thesis by blast
  next
    case False
    then obtain i where i: "i < length D" "D ! i = w" using wD by (auto simp: in_set_conv_nth)
    from collect_done [OF I i(1), of "[]"] show ?thesis using i(2) by auto
  qed
  have ret: "\<exists>r. ShortestPathWithQueue g [] v w = Some (Inr r)"
    using p(3,4) unfolding ShortestPath_def by (cases "dist p ! w = -1") auto
  show "\<exists>ps ds.
            shortestPathWithQueue g [] v w = Some (Inr (ps, ds)) \<and>
            (\<forall>x < Order g. ds ! x \<noteq> -1 \<longrightarrow> climb ps (Order g) (int x)) \<and>
            (\<exists>path. collect ps (int w) [] = Some (Inr path)) \<and>
            (\<exists>r. ShortestPathWithQueue g [] v w = Some (Inr r))"
    using p(1) c col ret by blast
qed

theorem parent_links_acyclic_witness:
  "wf_graph g2 \<and> no_overflow g2 \<and> (0::nat) < Order g2 \<and>
   (\<exists>ps ds. ShortestPaths g2 0 = Some (Inr (ps, ds)) \<and>
            (\<forall>w < Order g2. ds ! w \<noteq> -1 \<longrightarrow> climb ps (Order g2) (int w))) \<and>
   (\<exists>ps ds.
       shortestPathWithQueue g2 [] 0 1 = Some (Inr (ps, ds)) \<and>
       (\<forall>x < Order g2. ds ! x \<noteq> -1 \<longrightarrow> climb ps (Order g2) (int x)) \<and>
       (\<exists>path. collect ps (int 1) [] = Some (Inr path)) \<and>
       (\<exists>r. ShortestPathWithQueue g2 [] 0 1 = Some (Inr r)))"
proof -
  have v: "(0::nat) < Order g2" and w: "(1::nat) < Order g2" by (simp_all add: g2_def)
  show ?thesis
    using parent_links_acyclic [OF wf_g2 no_g2 v] wf_g2 no_g2 v w by blast
qed

text \<open>
  Without the bound on the costs the claim fails: on \<open>g_m1\<close> the search ends with
  \<open>dist ! 3 = 0\<close> and \<open>parent ! 3 = 3\<close>, so the parent links from vertex 3 never reach the
  sentinel.
\<close>

theorem parent_links_overflow_counterexample:
  "wf_graph g_m1 \<and> int64_costs g_m1 \<and>
   ShortestPaths g_m1 0 = Some (Inr ([-1, 0, 1, 3], [0, 2 ^ 63 - 1, -2, 0])) \<and>
   [0, 2 ^ 63 - 1, -2, 0] ! 3 \<noteq> (-1::int) \<and>
   \<not> climb [-1, 0, 1, 3] (Order g_m1) (int 3)"
proof -
  have "\<not> climb [-1, 0, 1, 3] (Order g_m1) (int 3)" by (simp add: g_m1_def numeral_eq_Suc)
  then show ?thesis using wf_g_m1 int64_costs_g_m1 ShortestPaths_g_m1 by simp
qed

end
